theory Spec2Isabelle
  imports
    Main
    "HOL-Library.Word"
    "HOL-Library.Sublist"
    "HOL-Library.Multiset"
    "HOL-Library.Char_ord"
    "HOL-Library.List_Lexorder"
    "HOL-Library.Monad_Syntax"
begin

chapter \<open>The model\<close>

section \<open>The item record\<close>

text \<open>
  The C++ \<^verbatim>\<open>int\<close> fields of \<^verbatim>\<open>struct Item\<close> are 32-bit two's complement words;
  \<^verbatim>\<open>std::string\<close> fields are byte strings; \<^verbatim>\<open>char date[12]\<close> is a byte string that
  a well-formed record keeps at length 12. The field \<^verbatim>\<open>id\<close> is called \<open>itemID\<close> here,
  because \<open>id\<close> is the identity function of HOL.
\<close>

type_synonym int32 = "32 word"

record Item =
  itemID :: int32
  name :: string
  category :: string
  description :: string
  date :: string
  location :: string
  status :: string
  matched :: int32
  claimed :: int32
  matchedItemID :: int32
  personName :: string
  personContact :: string

section \<open>Helper functions\<close>

text \<open>
  \<^verbatim>\<open>tolower\<close> in the "C" locale (the program never calls \<^verbatim>\<open>setlocale\<close>): the bytes
  65..90 (\<open>A\<close>..\<open>Z\<close>) move up by 32, every other byte stays.
\<close>

definition tolower :: "char \<Rightarrow> char" where
  "tolower c =
     (let n = (of_char c :: nat) in if 65 \<le> n \<and> n \<le> 90 then char_of (n + 32) else c)"

definition toLowerCase :: "string \<Rightarrow> string" where
  "toLowerCase s = map tolower s"

text \<open>
  \<^verbatim>\<open>std::string::find(sub) != npos\<close>: scan the start positions from the left and compare
  \<open>sub\<close> with the text at each of them; the empty \<open>sub\<close> is found at the end of the text too.
\<close>

fun strFind :: "string \<Rightarrow> string \<Rightarrow> bool" where
  "strFind [] sub = (sub = [])"
| "strFind (c # cs) sub = (prefix sub (c # cs) \<or> strFind cs sub)"

definition containsSubstring :: "string \<Rightarrow> string \<Rightarrow> bool" where
  "containsSubstring str substr =
     (let lowerStr = toLowerCase str; lowerSub = toLowerCase substr
      in strFind lowerStr lowerSub)"

text \<open>
  \<^verbatim>\<open>getItemByID\<close>: the first position among the \<open>itemCount\<close> live records whose id is the
  one asked for; \<open>None\<close> is the NULL pointer. A pointer into the array is its position.
\<close>

definition getItemByID :: "Item list \<Rightarrow> int \<Rightarrow> int32 \<Rightarrow> nat option" where
  "getItemByID items itemCount ident =
     find (\<lambda>i. itemID (items ! i) = ident) [0..<nat itemCount]"

section \<open>Search and filter\<close>

text \<open>
  Every search function runs \<^verbatim>\<open>for (i = 0; i < itemCount; i++)\<close> and appends \<open>i\<close> to
  \<^verbatim>\<open>results\<close> when the record at \<open>i\<close> passes its test; the returned count is the length
  of the list.
\<close>

definition searchByStatus :: "Item list \<Rightarrow> int \<Rightarrow> string \<Rightarrow> nat list" where
  "searchByStatus items itemCount query =
     (let lowerStatus = toLowerCase query in
      fold (\<lambda>i results.
              let itemStatus = toLowerCase (status (items ! i)) in
              if itemStatus = lowerStatus \<and> matched (items ! i) = 0
              then results @ [i] else results)
           [0..<nat itemCount] [])"

section \<open>Matching and claiming\<close>

text \<open>
  \<^verbatim>\<open>markAsMatched(Item& item1, Item& item2)\<close>: the two references are positions of the
  array, and the four assignments happen in the order of the source.
\<close>

definition markAsMatched :: "Item list \<Rightarrow> nat \<Rightarrow> nat \<Rightarrow> Item list" where
  "markAsMatched items p1 p2 =
     (let items1 = items[p1 := (items ! p1)\<lparr>matched := 1\<rparr>];
          items2 = items1[p2 := (items1 ! p2)\<lparr>matched := 1\<rparr>];
          items3 = items2[p1 := (items2 ! p1)\<lparr>matchedItemID := itemID (items2 ! p2)\<rparr>];
          items4 = items3[p2 := (items3 ! p2)\<lparr>matchedItemID := itemID (items3 ! p1)\<rparr>]
      in items4)"

text \<open>
  The lookup loop of \<^verbatim>\<open>markItemAsMatched\<close> has no \<^verbatim>\<open>break\<close>: each pointer ends at the
  last live record carrying the id.
\<close>

definition findBoth :: "Item list \<Rightarrow> int \<Rightarrow> int32 \<Rightarrow> int32 \<Rightarrow> nat option \<times> nat option" where
  "findBoth items itemCount id1 id2 =
     fold (\<lambda>i (item1, item2).
             (if itemID (items ! i) = id1 then Some i else item1,
              if itemID (items ! i) = id2 then Some i else item2))
          [0..<nat itemCount] (None, None)"

text \<open>One pointer of that loop on its own.\<close>

definition findLast :: "Item list \<Rightarrow> nat list \<Rightarrow> int32 \<Rightarrow> nat option \<Rightarrow> nat option" where
  "findLast items ps ident acc =
     fold (\<lambda>i p. if itemID (items ! i) = ident then Some i else p) ps acc"

datatype matchOutcome =
    NotEnoughItems    \<comment> \<open>"Not enough items to mark as matched."\<close>
  | SelfMatch         \<comment> \<open>"Cannot match an item with itself."\<close>
  | IdNotFound        \<comment> \<open>"One or both item IDs not found."\<close>
  | SameStatus        \<comment> \<open>"Invalid match! You can only match a Lost item with a Found item."\<close>
  | AlreadyMatched    \<comment> \<open>"One or both items are already matched."\<close>
  | MatchedOK         \<comment> \<open>"Items matched successfully!"\<close>

text \<open>
  \<^verbatim>\<open>markItemAsMatched\<close>, with the two ids the prompts accepted as arguments. The record
  count is tested before the ids are read. The result is the message and the array; on
  success the source then writes the array to the file, which does not change it.
\<close>

definition markItemAsMatched ::
  "Item list \<Rightarrow> int \<Rightarrow> int32 \<Rightarrow> int32 \<Rightarrow> matchOutcome \<times> Item list" where
  "markItemAsMatched items itemCount id1 id2 =
     (if itemCount < 2 then (NotEnoughItems, items)
      else if id1 = id2 then (SelfMatch, items)
      else
        (case findBoth items itemCount id1 id2 of
           (Some p1, Some p2) \<Rightarrow>
             if (status (items ! p1) = ''Lost'' \<and> status (items ! p2) = ''Lost'')
                \<or> (status (items ! p1) = ''Found'' \<and> status (items ! p2) = ''Found'')
             then (SameStatus, items)
             else if matched (items ! p1) \<noteq> 0 \<or> matched (items ! p2) \<noteq> 0
             then (AlreadyMatched, items)
             else (MatchedOK, markAsMatched items p1 p2)
         | _ \<Rightarrow> (IdNotFound, items)))"

datatype claimOutcome =
    ClaimNotFound     \<comment> \<open>"Item not found."\<close>
  | NotMatchedYet     \<comment> \<open>"Item cannot be claimed because it is not matched yet."\<close>
  | AlreadyClaimed    \<comment> \<open>"Item is already claimed."\<close>
  | ClaimedOK         \<comment> \<open>"Item marked as claimed successfully."\<close>

text \<open>
  \<^verbatim>\<open>markAsClaimed\<close>, with the id the prompt accepted as argument (the prompt asks again
  until the number is positive).
\<close>

definition markAsClaimed :: "Item list \<Rightarrow> int \<Rightarrow> int32 \<Rightarrow> claimOutcome \<times> Item list" where
  "markAsClaimed items itemCount ident =
     (case getItemByID items itemCount ident of
        None \<Rightarrow> (ClaimNotFound, items)
      | Some p \<Rightarrow>
          if matched (items ! p) = 0 then (NotMatchedYet, items)
          else if claimed (items ! p) = 1 then (AlreadyClaimed, items)
          else
            (let items1 = items[p := (items ! p)\<lparr>claimed := 1\<rparr>] in
             if matchedItemID (items1 ! p) \<noteq> - 1 then
               (case getItemByID items1 itemCount (matchedItemID (items1 ! p)) of
                  None \<Rightarrow> (ClaimedOK, items1)
                | Some q \<Rightarrow> (ClaimedOK, items1[q := (items1 ! q)\<lparr>claimed := 1\<rparr>]))
             else (ClaimedOK, items1)))"

section \<open>Example records\<close>

text \<open>The two wallets of the specification's example scenario.\<close>

definition wallet_lost :: Item where
  "wallet_lost = \<lparr>itemID = 100, name = ''Wallet'', category = ''Accessories'',
     description = ''Brown leather'', date = ''2026-01-05'' @ [CHR 0x00, CHR 0x00],
     location = ''Library'', status = ''Lost'', matched = 0, claimed = 0,
     matchedItemID = - 1, personName = ''Abebe'', personContact = ''0911''\<rparr>"

definition wallet_found :: Item where
  "wallet_found = \<lparr>itemID = 101, name = ''wallet'', category = ''Accessories'',
     description = ''Found near a desk'', date = ''2026-01-06'' @ [CHR 0x00, CHR 0x00],
     location = ''Library'', status = ''Found'', matched = 0, claimed = 0,
     matchedItemID = - 1, personName = [], personContact = []\<rparr>"

text \<open>A lost bunch of keys that shares no text with the found wallet.\<close>

definition keys_lost :: Item where
  "keys_lost = \<lparr>itemID = 102, name = ''Keys'', category = ''Personal'',
     description = ''Three on a ring'', date = ''2026-01-07'' @ [CHR 0x00, CHR 0x00],
     location = ''Cafeteria'', status = ''Lost'', matched = 0, claimed = 0,
     matchedItemID = - 1, personName = ''Sara'', personContact = ''0922''\<rparr>"

section \<open>Deleting\<close>

text \<open>
  \<^verbatim>\<open>deleteItem\<close>, with the id and the answer (one of Y, y, N, n) the prompts accepted as
  arguments. The lookup loop stops at the first live record with the id. The shift loop
  \<^verbatim>\<open>for (i = index; i < itemCount - 1; i++) items[i] = items[i + 1]\<close> works on the
  array in place; the slot at the old last position keeps its content. The result is the
  message, the array and the new record count; the source then writes the array to the
  file.
\<close>

datatype deleteOutcome =
    NoItemsToDelete     \<comment> \<open>"No items available to delete."\<close>
  | DeleteNotFound      \<comment> \<open>"Item with ID ... not found."\<close>
  | DeletionCancelled   \<comment> \<open>"Deletion cancelled."\<close>
  | DeletedOK           \<comment> \<open>"Item deleted successfully!"\<close>

definition shiftDown :: "Item list \<Rightarrow> nat \<Rightarrow> int \<Rightarrow> Item list" where
  "shiftDown items index itemCount =
     fold (\<lambda>i xs. xs[i := xs ! (i + 1)]) [index..<nat (itemCount - 1)] items"

definition deleteItem ::
  "Item list \<Rightarrow> int \<Rightarrow> int32 \<Rightarrow> char \<Rightarrow> deleteOutcome \<times> Item list \<times> int" where
  "deleteItem items itemCount ident confirm =
     (if itemCount = 0 then (NoItemsToDelete, items, itemCount)
      else
        (case find (\<lambda>i. itemID (items ! i) = ident) [0..<nat itemCount] of
           None \<Rightarrow> (DeleteNotFound, items, itemCount)
         | Some index \<Rightarrow>
             if confirm = CHR ''N'' \<or> confirm = CHR ''n''
             then (DeletionCancelled, items, itemCount)
             else (DeletedOK, shiftDown items index itemCount, itemCount - 1)))"

section \<open>The candidate search after an add\<close>

text \<open>
  \<^verbatim>\<open>findPotentialMatches\<close>: the returned list is \<^verbatim>\<open>matchIndices\<close>, its length the count
  (the source returns NULL for the empty list).
\<close>

definition findPotentialMatches :: "Item list \<Rightarrow> int \<Rightarrow> Item \<Rightarrow> nat list" where
  "findPotentialMatches items itemCount newItem =
     fold (\<lambda>i matchIndices.
             if matched (items ! i) = 1 \<or> status (items ! i) = status newItem
             then matchIndices
             else
               (let match =
                  containsSubstring (name (items ! i)) (name newItem) \<or>
                  containsSubstring (name newItem) (name (items ! i)) \<or>
                  containsSubstring (category (items ! i)) (category newItem) \<or>
                  containsSubstring (category newItem) (category (items ! i)) \<or>
                  containsSubstring (description (items ! i)) (description newItem) \<or>
                  containsSubstring (description newItem) (description (items ! i)) \<or>
                  containsSubstring (location (items ! i)) (location newItem) \<or>
                  containsSubstring (location newItem) (location (items ! i))
                in if match then matchIndices @ [i] else matchIndices))
          [0..<nat itemCount] []"

text \<open>
  The call in \<^verbatim>\<open>searchForMatches\<close>: \<^verbatim>\<open>findPotentialMatches(items, itemCount - 1, newItem,
  matchCount)\<close>, where both callers (\<^verbatim>\<open>addLostItem\<close>, \<^verbatim>\<open>addFoundItem\<close>) pass
  \<^verbatim>\<open>items[itemCount - 1]\<close> as \<^verbatim>\<open>newItem\<close>.
\<close>

definition candidateSearch :: "Item list \<Rightarrow> int \<Rightarrow> nat list" where
  "candidateSearch items itemCount =
     findPotentialMatches items (itemCount - 1) (items ! nat (itemCount - 1))"

section \<open>Well-formed records, and the words of the specification\<close>

text \<open>
  What the data model says of a record: the date array has its 12 bytes, the status is
  one of the two literals, and the two flags are 0 or 1.
\<close>

definition validItem :: "Item \<Rightarrow> bool" where
  "validItem x \<longleftrightarrow>
     length (date x) = 12
     \<and> (status x = ''Lost'' \<or> status x = ''Found'')
     \<and> (matched x = 0 \<or> matched x = 1)
     \<and> (claimed x = 0 \<or> claimed x = 1)"

text \<open>
  Equality up to letter case, in the words of the specification and without reference to
  the program's helper functions: two characters are the same letter when they are
  equal, or one of them is a capital \<open>A\<close>..\<open>Z\<close> (the bytes 65..90) and the other
  is the small letter belonging to it, 32 above (\<open>a\<close>..\<open>z\<close>, the bytes 97..122). Two
  texts are equal ignoring case when they have the same length and the same letter at
  every position.
\<close>

definition sameLetter :: "char \<Rightarrow> char \<Rightarrow> bool" where
  "sameLetter c d \<longleftrightarrow>
     c = d
     \<or> (65 \<le> (of_char c :: nat) \<and> (of_char c :: nat) \<le> 90
        \<and> (of_char d :: nat) = of_char c + 32)
     \<or> (65 \<le> (of_char d :: nat) \<and> (of_char d :: nat) \<le> 90
        \<and> (of_char c :: nat) = of_char d + 32)"

definition equalIgnoringCase :: "string \<Rightarrow> string \<Rightarrow> bool" where
  "equalIgnoringCase a b \<longleftrightarrow> list_all2 sameLetter a b"

text \<open>
  A text \<open>a\<close> contains a text \<open>b\<close> ignoring case when, at some start position of \<open>a\<close>,
  the next \<open>length b\<close> characters of \<open>a\<close> are equal to \<open>b\<close> ignoring case.
\<close>

definition containsIgnoringCase :: "string \<Rightarrow> string \<Rightarrow> bool" where
  "containsIgnoringCase a b \<longleftrightarrow>
     list_ex (\<lambda>i. equalIgnoringCase (take (length b) (drop i a)) b) [0..<Suc (length a)]"

text \<open>
  The specification's candidate rule, in its words: the candidate is unmatched, has the
  opposite status, and one of the four fields overlaps in either direction.
\<close>

definition overlapEitherWay :: "string \<Rightarrow> string \<Rightarrow> bool" where
  "overlapEitherWay a b \<longleftrightarrow> containsIgnoringCase a b \<or> containsIgnoringCase b a"

definition oppositeStatus :: "Item \<Rightarrow> Item \<Rightarrow> bool" where
  "oppositeStatus x y \<longleftrightarrow>
     (status x = ''Lost'' \<and> status y = ''Found'') \<or> (status x = ''Found'' \<and> status y = ''Lost'')"

definition isCandidate :: "Item \<Rightarrow> Item \<Rightarrow> bool" where
  "isCandidate newItem x \<longleftrightarrow>
     matched x = 0 \<and> oppositeStatus x newItem
     \<and> (overlapEitherWay (name x) (name newItem)
        \<or> overlapEitherWay (category x) (category newItem)
        \<or> overlapEitherWay (description x) (description newItem)
        \<or> overlapEitherWay (location x) (location newItem))"

section \<open>The store\<close>

text \<open>
  The variables of \<^verbatim>\<open>main\<close> that every operation receives: the backing array (of
  \<open>capacity\<close> slots, the first \<open>itemCount\<close> of them live), the record count, the capacity
  and the id counter. The two sizes are C++ \<^verbatim>\<open>int\<close>s, kept as integers here, with the
  places where the source multiplies them checked against the 32-bit range.
\<close>

record Store =
  st_items :: "Item list"
  st_itemCount :: int
  st_capacity :: int
  st_nextID :: int32

section \<open>The file format\<close>

text \<open>
  The file is the sequence of its bytes. \<^verbatim>\<open>file.write(reinterpret_cast<char*>(&v),
  sizeof(v))\<close> writes the object representation of \<open>v\<close>: here little-endian, 4 bytes
  for an \<^verbatim>\<open>int\<close> and 8 bytes for a \<^verbatim>\<open>size_t\<close> (the LP64 platforms). \<open>encLE k n\<close> is the
  \<open>k\<close> low bytes of \<open>n\<close>, lowest first, and \<open>decLE\<close> reads such bytes back.
\<close>

fun encLE :: "nat \<Rightarrow> nat \<Rightarrow> string" where
  "encLE 0 n = []"
| "encLE (Suc k) n = char_of n # encLE k (n div 256)"

fun decLE :: "string \<Rightarrow> nat" where
  "decLE [] = 0"
| "decLE (c # cs) = of_char c + 256 * decLE cs"

definition writeInt :: "int32 \<Rightarrow> string" where
  "writeInt v = encLE 4 (unat v)"

definition writeSize :: "nat \<Rightarrow> string" where
  "writeSize len = encLE 8 len"

definition writeString :: "string \<Rightarrow> string" where
  "writeString s = writeSize (length s) @ s"

text \<open>One record, field by field in the order of the loop body of \<^verbatim>\<open>saveToFile\<close>.\<close>

definition writeItem :: "Item \<Rightarrow> string" where
  "writeItem x =
     writeInt (itemID x) @ writeString (name x) @ writeString (category x)
     @ writeString (description x) @ date x @ writeString (location x)
     @ writeString (status x) @ writeInt (matched x) @ writeInt (claimed x)
     @ writeInt (matchedItemID x) @ writeString (personName x)
     @ writeString (personContact x)"

text \<open>
  \<^verbatim>\<open>saveToFile\<close>: \<open>opens\<close> says whether \<^verbatim>\<open>file.open(filename, ios::out | ios::binary)\<close>
  succeeds, \<open>old\<close> is the file before the call (\<open>None\<close>: no file). When the file does
  not open the function prints a message and returns, the file untouched; otherwise the
  file is rewritten from its start: the header, then the live records in array order.
\<close>

definition saveToFile ::
  "bool \<Rightarrow> string option \<Rightarrow> Item list \<Rightarrow> int \<Rightarrow> int32 \<Rightarrow> string option" where
  "saveToFile opens old items itemCount nextID =
     (if \<not> opens then old
      else Some (fold (\<lambda>i out. out @ writeItem (items ! i)) [0..<nat itemCount]
                   (writeInt nextID @ writeInt (word_of_int itemCount))))"

text \<open>
  \<^verbatim>\<open>file.read(buf, n)\<close> on the rest of the stream: the next \<open>n\<close> bytes and what follows
  them, or \<open>None\<close> when fewer than \<open>n\<close> bytes are left (the stream then fails, and every
  later read leaves its target as it was).
\<close>

definition readBytes :: "nat \<Rightarrow> string \<Rightarrow> (string \<times> string) option" where
  "readBytes n bs = (if n \<le> length bs then Some (take n bs, drop n bs) else None)"

definition readInt :: "string \<Rightarrow> (int32 \<times> string) option" where
  "readInt bs = do { (b, rest) \<leftarrow> readBytes 4 bs; Some (word_of_nat (decLE b), rest) }"

definition readSize :: "string \<Rightarrow> (nat \<times> string) option" where
  "readSize bs = do { (b, rest) \<leftarrow> readBytes 8 bs; Some (decLE b, rest) }"

definition readString :: "string \<Rightarrow> (string \<times> string) option" where
  "readString bs = do { (len, rest) \<leftarrow> readSize bs; readBytes len rest }"

text \<open>
  The body of the loop of \<^verbatim>\<open>loadFromFile\<close>: twelve reads in the order of the file
  format, each string through its length prefix. The source does not test any of these
  reads; after a read that comes short the next length is an uninitialised \<^verbatim>\<open>size_t\<close>
  and the bytes of the buffer are indeterminate, so the result is then \<open>None\<close>: the
  language leaves the rest of the run undefined.
\<close>

definition readItem :: "string \<Rightarrow> (Item \<times> string) option" where
  "readItem bs0 = do {
     (v_id, bs1) \<leftarrow> readInt bs0;
     (v_name, bs2) \<leftarrow> readString bs1;
     (v_category, bs3) \<leftarrow> readString bs2;
     (v_description, bs4) \<leftarrow> readString bs3;
     (v_date, bs5) \<leftarrow> readBytes 12 bs4;
     (v_location, bs6) \<leftarrow> readString bs5;
     (v_status, bs7) \<leftarrow> readString bs6;
     (v_matched, bs8) \<leftarrow> readInt bs7;
     (v_claimed, bs9) \<leftarrow> readInt bs8;
     (v_matchedItemID, bs10) \<leftarrow> readInt bs9;
     (v_personName, bs11) \<leftarrow> readString bs10;
     (v_personContact, bs12) \<leftarrow> readString bs11;
     Some (\<lparr>itemID = v_id, name = v_name, category = v_category,
             description = v_description, date = v_date, location = v_location,
             status = v_status, matched = v_matched, claimed = v_claimed,
             matchedItemID = v_matchedItemID, personName = v_personName,
             personContact = v_personContact\<rparr>, bs12) }"

text \<open>
  \<^verbatim>\<open>for (int i = 0; i < itemCount; i++)\<close> of \<^verbatim>\<open>loadFromFile\<close>: position \<open>i\<close>, the number
  of records still to read, the rest of the stream and the array, filled in place.
\<close>

fun loadLoop :: "nat \<Rightarrow> nat \<Rightarrow> string \<Rightarrow> Item list \<Rightarrow> Item list option" where
  "loadLoop i 0 bs arr = Some arr"
| "loadLoop i (Suc k) bs arr =
     (case readItem bs of
        None \<Rightarrow> None
      | Some (x, rest) \<Rightarrow> loadLoop (Suc i) k rest (arr[i := x]))"

text \<open>
  The two ways in which a run of the loader leaves defined behaviour: a doubling of the
  capacity that overflows \<^verbatim>\<open>int\<close>, and a record read that comes short.
\<close>

datatype fault = SignedOverflow | ShortRead

text \<open>
  \<^verbatim>\<open>while (capacity < itemCount) capacity *= 2;\<close> The loop does not end when the capacity
  is 0, hence the option type: \<open>None\<close> is a run that never returns.
\<close>

partial_function (option) growCapacity :: "int \<Rightarrow> int \<Rightarrow> (fault + int) option" where
  "growCapacity capacity itemCount =
     (if capacity < itemCount then
        (if 2147483647 < capacity * 2 \<or> capacity * 2 < - 2147483648
         then Some (Inl SignedOverflow)
         else growCapacity (capacity * 2) itemCount)
      else Some (Inr capacity))"

declare growCapacity.simps [code]

text \<open>The two header reads, \<^verbatim>\<open>nextID\<close> then \<^verbatim>\<open>itemCount\<close>.\<close>

definition readHeader :: "string \<Rightarrow> (int32 \<times> int32 \<times> string) option" where
  "readHeader bs = do {
     (v_nextID, bs1) \<leftarrow> readInt bs;
     (v_itemCount, bs2) \<leftarrow> readInt bs1;
     Some (v_nextID, v_itemCount, bs2) }"

text \<open>
  \<^verbatim>\<open>loadFromFile\<close>. \<open>file\<close> is the file on disk (\<open>None\<close>: it does not open for reading).
  \<open>junk\<close> stands for what \<^verbatim>\<open>new Item[capacity]\<close> leaves in a slot (the integers and the
  date of a default-initialised \<^verbatim>\<open>Item\<close> are indeterminate). Without a file or without
  a full header the count becomes 0 and the counter 100, array and capacity as they were.
  Otherwise the count of the header is taken as it is; when it exceeds the capacity, the
  capacity is doubled until it does not and the array is replaced by a fresh one; then
  the records are read into the array from position 0.
\<close>

definition loadFromFile :: "string option \<Rightarrow> Item \<Rightarrow> Store \<Rightarrow> (fault + Store) option" where
  "loadFromFile file junk st =
     (case file of
        None \<Rightarrow> Some (Inr (st\<lparr>st_itemCount := 0, st_nextID := 100\<rparr>))
      | Some bytes \<Rightarrow>
          (case readHeader bytes of
             None \<Rightarrow> Some (Inr (st\<lparr>st_itemCount := 0, st_nextID := 100\<rparr>))
           | Some (v_nextID, v_itemCount, body) \<Rightarrow>
               (let n = sint v_itemCount in
                case (if st_capacity st < n then growCapacity (st_capacity st) n
                      else Some (Inr (st_capacity st))) of
                  None \<Rightarrow> None
                | Some (Inl f) \<Rightarrow> Some (Inl f)
                | Some (Inr cap) \<Rightarrow>
                    (let arr = (if st_capacity st < n then replicate (nat cap) junk else st_items st)
                     in case loadLoop 0 (nat n) body arr of
                          None \<Rightarrow> Some (Inl ShortRead)
                        | Some arr' \<Rightarrow>
                            Some (Inr \<lparr>st_items = arr', st_itemCount = n, st_capacity = cap,
                                       st_nextID = v_nextID\<rparr>)))))"

text \<open>
  The variables of \<^verbatim>\<open>main\<close> before the first load: \<^verbatim>\<open>itemCount = 0, nextID = 100,
  capacity = 10\<close> and \<^verbatim>\<open>new Item[capacity]\<close>.
\<close>

definition initialStore :: "Item \<Rightarrow> Store" where
  "initialStore junk = \<lparr>st_items = replicate 10 junk, st_itemCount = 0, st_capacity = 10,
       st_nextID = 100\<rparr>"

text \<open>
  A record that the file format can hold: the date array has its 12 bytes, and every
  string is shorter than \<open>2 ^ 64\<close> bytes, so that its length fits the \<^verbatim>\<open>size_t\<close> prefix.
\<close>

definition storable :: "Item \<Rightarrow> bool" where
  "storable x \<longleftrightarrow>
     length (date x) = 12
     \<and> length (name x) < 2 ^ 64 \<and> length (category x) < 2 ^ 64
     \<and> length (description x) < 2 ^ 64 \<and> length (location x) < 2 ^ 64
     \<and> length (status x) < 2 ^ 64 \<and> length (personName x) < 2 ^ 64
     \<and> length (personContact x) < 2 ^ 64"

section \<open>Sorting\<close>

text \<open>
  \<^verbatim>\<open>swapItems(Item& a, Item& b)\<close> on two slots of the array, through the temporary of
  the source.
\<close>

definition swapItems :: "Item list \<Rightarrow> nat \<Rightarrow> nat \<Rightarrow> Item list" where
  "swapItems xs a b = (let temp = xs ! a; xs1 = xs[a := xs ! b] in xs1[b := temp])"

text \<open>
  The five sort functions are the same two loops around one test:
  \<^verbatim>\<open>for (i = 0; i < itemCount - 1; i++) for (j = 0; j < itemCount - i - 1; j++)
  if (TEST(items[j], items[j + 1])) swapItems(items[j], items[j + 1]);\<close>
  \<open>bubbleStep\<close> is the body of the inner loop and \<open>bubbleLoops\<close> the two loops, with the
  test as parameter; each sort function below passes the test of its source.
\<close>

definition bubbleStep :: "(Item \<Rightarrow> Item \<Rightarrow> bool) \<Rightarrow> nat \<Rightarrow> Item list \<Rightarrow> Item list" where
  "bubbleStep swapNeeded j xs =
     (if swapNeeded (xs ! j) (xs ! (j + 1)) then swapItems xs j (j + 1) else xs)"

definition bubbleLoops :: "(Item \<Rightarrow> Item \<Rightarrow> bool) \<Rightarrow> Item list \<Rightarrow> int \<Rightarrow> Item list" where
  "bubbleLoops swapNeeded items itemCount =
     fold (\<lambda>i xs. fold (bubbleStep swapNeeded) [0..<nat (itemCount - int i - 1)] xs)
          [0..<nat (itemCount - 1)] items"

text \<open>
  \<^verbatim>\<open>strcmp\<close> compares the two C strings (the bytes before the first NUL) byte by byte as
  unsigned characters: its sign is that of the lexicographic comparison. A date array
  without a NUL among its 12 bytes makes the source read past the array; the records the
  program stores are terminated (\<^verbatim>\<open>getValidDate\<close> writes the NUL), and here the 12 bytes
  are then the string.
\<close>

definition cstr :: "string \<Rightarrow> string" where
  "cstr a = takeWhile (\<lambda>c. c \<noteq> CHR 0x00) a"

definition strcmp :: "string \<Rightarrow> string \<Rightarrow> int" where
  "strcmp a b = (if cstr a < cstr b then - 1 else if cstr a = cstr b then 0 else 1)"

text \<open>
  \<^verbatim>\<open>std::string\<close> comparison is lexicographic on unsigned bytes and a proper prefix is
  smaller, which is the order of \<open>string\<close> here; ids compare as signed integers.
\<close>

definition sortByID :: "Item list \<Rightarrow> int \<Rightarrow> bool \<Rightarrow> Item list" where
  "sortByID items itemCount ascending =
     bubbleLoops (\<lambda>a b. (ascending \<and> sint (itemID a) > sint (itemID b))
                       \<or> (\<not> ascending \<and> sint (itemID a) < sint (itemID b)))
       items itemCount"

definition sortByName :: "Item list \<Rightarrow> int \<Rightarrow> bool \<Rightarrow> Item list" where
  "sortByName items itemCount ascending =
     bubbleLoops (\<lambda>a b. (ascending \<and> name a > name b) \<or> (\<not> ascending \<and> name a < name b))
       items itemCount"

definition sortByCategory :: "Item list \<Rightarrow> int \<Rightarrow> bool \<Rightarrow> Item list" where
  "sortByCategory items itemCount ascending =
     bubbleLoops (\<lambda>a b. (ascending \<and> category a > category b)
                       \<or> (\<not> ascending \<and> category a < category b))
       items itemCount"

definition sortByDate :: "Item list \<Rightarrow> int \<Rightarrow> bool \<Rightarrow> Item list" where
  "sortByDate items itemCount ascending =
     bubbleLoops (\<lambda>a b. (ascending \<and> strcmp (date a) (date b) > 0)
                       \<or> (\<not> ascending \<and> strcmp (date a) (date b) < 0))
       items itemCount"

definition sortByStatus :: "Item list \<Rightarrow> int \<Rightarrow> bool \<Rightarrow> Item list" where
  "sortByStatus items itemCount lostFirst =
     bubbleLoops (\<lambda>a b. (lostFirst \<and> status a < status b) \<or> (\<not> lostFirst \<and> status a > status b))
       items itemCount"

text \<open>
  The \<^verbatim>\<open>switch\<close> of \<^verbatim>\<open>sortMenu\<close>, with the menu choice (1 to 5) and the flag computed from
  the chosen order as arguments; the source then writes the array to the file.
\<close>

datatype sortKey = ByID | ByName | ByCategory | ByDate | ByStatus

definition performSort :: "sortKey \<Rightarrow> bool \<Rightarrow> Item list \<Rightarrow> int \<Rightarrow> Item list" where
  "performSort choice ascendingOrLostFirst items itemCount =
     (case choice of
        ByID \<Rightarrow> sortByID items itemCount ascendingOrLostFirst
      | ByName \<Rightarrow> sortByName items itemCount ascendingOrLostFirst
      | ByCategory \<Rightarrow> sortByCategory items itemCount ascendingOrLostFirst
      | ByDate \<Rightarrow> sortByDate items itemCount ascendingOrLostFirst
      | ByStatus \<Rightarrow> sortByStatus items itemCount ascendingOrLostFirst)"

text \<open>
  For the statements about sorting: the sort key of a record under each choice, when two
  records are in order under a choice and its flag, and the orders that a comparison
  sort can work with.
\<close>

datatype keyValue = NumberKey int | TextKey string

definition sortKeyOf :: "sortKey \<Rightarrow> Item \<Rightarrow> keyValue" where
  "sortKeyOf choice x =
     (case choice of
        ByID \<Rightarrow> NumberKey (sint (itemID x))
      | ByName \<Rightarrow> TextKey (name x)
      | ByCategory \<Rightarrow> TextKey (category x)
      | ByDate \<Rightarrow> TextKey (cstr (date x))
      | ByStatus \<Rightarrow> TextKey (status x))"

definition inOrder :: "sortKey \<Rightarrow> bool \<Rightarrow> Item \<Rightarrow> Item \<Rightarrow> bool" where
  "inOrder choice flag a b =
     (case choice of
        ByID \<Rightarrow> if flag then sint (itemID a) \<le> sint (itemID b)
                 else sint (itemID b) \<le> sint (itemID a)
      | ByName \<Rightarrow> if flag then name a \<le> name b else name b \<le> name a
      | ByCategory \<Rightarrow> if flag then category a \<le> category b else category b \<le> category a
      | ByDate \<Rightarrow> if flag then cstr (date a) \<le> cstr (date b) else cstr (date b) \<le> cstr (date a)
      | ByStatus \<Rightarrow> if flag then status b \<le> status a else status a \<le> status b)"

definition strictWeakOrder :: "(Item \<Rightarrow> Item \<Rightarrow> bool) \<Rightarrow> bool" where
  "strictWeakOrder g \<longleftrightarrow>
     (\<forall>a. \<not> g a a) \<and> (\<forall>a b. g a b \<longrightarrow> \<not> g b a)
     \<and> (\<forall>a b c. \<not> g a b \<and> \<not> g b c \<longrightarrow> \<not> g a c)"

section \<open>Adding records\<close>

text \<open>
  \<^verbatim>\<open>resizeArray\<close>: \<^verbatim>\<open>new Item[newCapacity]()\<close> gives value-initialised slots (zero
  integers and date bytes, empty strings), the first \<open>capacity\<close> of which receive the old
  records. The doubling is checked against the \<^verbatim>\<open>int\<close> range.
\<close>

definition zeroItem :: Item where
  "zeroItem = \<lparr>itemID = 0, name = [], category = [], description = [],
     date = replicate 12 (CHR 0x00), location = [], status = [], matched = 0, claimed = 0,
     matchedItemID = 0, personName = [], personContact = []\<rparr>"

definition resizeArray :: "Item list \<Rightarrow> int \<Rightarrow> fault + (Item list \<times> int)" where
  "resizeArray items capacity =
     (let newCapacity = capacity * 2 in
      if 2147483647 < newCapacity \<or> newCapacity < - 2147483648 then Inl SignedOverflow
      else Inr (map (\<lambda>i. items ! i) [0..<nat capacity]
                @ replicate (nat newCapacity - nat capacity) zeroItem, newCapacity))"

text \<open>
  \<^verbatim>\<open>markMatchByID\<close>: the first live record with the id is matched with the new record;
  the new record is a reference into the array, here its position.
\<close>

definition markMatchByID :: "Item list \<Rightarrow> int \<Rightarrow> nat \<Rightarrow> int32 \<Rightarrow> bool \<times> Item list" where
  "markMatchByID items itemCount newItem matchID =
     (case find (\<lambda>i. itemID (items ! i) = matchID) [0..<nat itemCount] of
        Some i \<Rightarrow> (True, markAsMatched items newItem i)
      | None \<Rightarrow> (False, items))"

text \<open>
  The prompt loop of \<^verbatim>\<open>searchForMatches\<close>: the numbers typed at the prompt, in order.
  0 stops; an id that one of the candidates carries is matched, and a successful match
  stops; anything else asks again. When the typed numbers run out the prompt is still
  waiting, and the array is as the last step left it.
\<close>

fun askMatchID :: "Item list \<Rightarrow> int \<Rightarrow> nat \<Rightarrow> nat list \<Rightarrow> int32 list \<Rightarrow> Item list" where
  "askMatchID items itemCount newItem matchIndices [] = items"
| "askMatchID items itemCount newItem matchIndices (choice # rest) =
     (if choice = 0 then items
      else if list_ex (\<lambda>i. itemID (items ! i) = choice) matchIndices
      then (case markMatchByID items itemCount newItem choice of
              (True, items') \<Rightarrow> items'
            | (False, _) \<Rightarrow> askMatchID items itemCount newItem matchIndices rest)
      else askMatchID items itemCount newItem matchIndices rest)"

text \<open>
  \<^verbatim>\<open>searchForMatches\<close>, with the lower-cased answer to the first question (\<open>y\<close> or \<open>n\<close>)
  and the numbers typed afterwards as arguments.
\<close>

definition searchForMatches :: "Item list \<Rightarrow> int \<Rightarrow> char \<Rightarrow> int32 list \<Rightarrow> Item list" where
  "searchForMatches items itemCount searchChoice choices =
     (if searchChoice = CHR ''y'' then
        (let matchIndices = candidateSearch items itemCount in
         if 0 < length matchIndices
         then askMatchID items itemCount (nat (itemCount - 1)) matchIndices choices
         else items)
      else items)"

text \<open>What the prompts of an add collect, each value as its prompt accepted it.\<close>

record Entry =
  e_name :: string
  e_category :: string
  e_description :: string
  e_date :: string
  e_location :: string
  e_personName :: string
  e_personContact :: string

text \<open>
  \<^verbatim>\<open>strncpy(date, temp.c_str(), 11); date[11] = '\0';\<close> at the end of \<^verbatim>\<open>getValidDate\<close>:
  the text up to its end, padded with NULs to 11 bytes, and a NUL in the last byte.
\<close>

definition storeDate :: "string \<Rightarrow> string" where
  "storeDate temp = take 11 (cstr temp @ replicate 11 (CHR 0x00)) @ [CHR 0x00]"

text \<open>
  \<^verbatim>\<open>addLostItem\<close> and \<^verbatim>\<open>addFoundItem\<close> differ in the status literal (and in the wording
  of their prompts): room is made when the array is full, the new record takes
  \<^verbatim>\<open>nextID++\<close> (checked against the \<^verbatim>\<open>int\<close> range), goes to the end of the live records
  and is written to the file; then \<^verbatim>\<open>searchForMatches\<close> runs on it.
\<close>

definition addItemWith ::
  "string \<Rightarrow> Store \<Rightarrow> Entry \<Rightarrow> char \<Rightarrow> int32 list \<Rightarrow> fault + Store" where
  "addItemWith statusText st e searchChoice choices =
     (case (if st_itemCount st = st_capacity st
            then resizeArray (st_items st) (st_capacity st)
            else Inr (st_items st, st_capacity st)) of
        Inl f \<Rightarrow> Inl f
      | Inr (items1, capacity1) \<Rightarrow>
          if st_nextID st = 2147483647 then Inl SignedOverflow
          else
            (let newItem = \<lparr>itemID = st_nextID st, name = e_name e, category = e_category e,
                   description = e_description e, date = storeDate (e_date e),
                   location = e_location e, status = statusText, matched = 0, claimed = 0,
                   matchedItemID = - 1, personName = e_personName e,
                   personContact = e_personContact e\<rparr>;
                 nextID1 = st_nextID st + 1;
                 items2 = items1[nat (st_itemCount st) := newItem];
                 itemCount1 = st_itemCount st + 1;
                 items3 = searchForMatches items2 itemCount1 searchChoice choices
             in Inr \<lparr>st_items = items3, st_itemCount = itemCount1, st_capacity = capacity1,
                     st_nextID = nextID1\<rparr>))"

definition addLostItem :: "Store \<Rightarrow> Entry \<Rightarrow> char \<Rightarrow> int32 list \<Rightarrow> fault + Store" where
  "addLostItem = addItemWith ''Lost''"

definition addFoundItem :: "Store \<Rightarrow> Entry \<Rightarrow> char \<Rightarrow> int32 list \<Rightarrow> fault + Store" where
  "addFoundItem = addItemWith ''Found''"

section \<open>Updating and clearing\<close>

text \<open>
  The choices 1 to 8 of \<^verbatim>\<open>updateItemMenu\<close> with the values their prompts accepted; the
  menu applies them in the order typed until 9 is chosen. No choice touches the id, the
  status or the flags.
\<close>

datatype edit =
    SetName string
  | SetCategory string
  | SetDescription string
  | SetDate string
  | SetLocation string
  | SetPersonName string
  | SetPersonContact string
  | SetAll Entry

fun applyEdit :: "edit \<Rightarrow> Item \<Rightarrow> Item" where
  "applyEdit (SetName s) x = x\<lparr>name := s\<rparr>"
| "applyEdit (SetCategory s) x = x\<lparr>category := s\<rparr>"
| "applyEdit (SetDescription s) x = x\<lparr>description := s\<rparr>"
| "applyEdit (SetDate s) x = x\<lparr>date := storeDate s\<rparr>"
| "applyEdit (SetLocation s) x = x\<lparr>location := s\<rparr>"
| "applyEdit (SetPersonName s) x = x\<lparr>personName := s\<rparr>"
| "applyEdit (SetPersonContact s) x = x\<lparr>personContact := s\<rparr>"
| "applyEdit (SetAll e) x =
     x\<lparr>name := e_name e, category := e_category e, description := e_description e,
       date := storeDate (e_date e), location := e_location e,
       personName := e_personName e, personContact := e_personContact e\<rparr>"

definition updateItemMenu :: "Item \<Rightarrow> edit list \<Rightarrow> Item" where
  "updateItemMenu item edits = fold applyEdit edits item"

datatype updateOutcome = NoItemsToUpdate | UpdateNotFound | UpdatedOK

definition updateItem ::
  "Item list \<Rightarrow> int \<Rightarrow> int32 \<Rightarrow> edit list \<Rightarrow> updateOutcome \<times> Item list" where
  "updateItem items itemCount ident edits =
     (if itemCount = 0 then (NoItemsToUpdate, items)
      else
        (case find (\<lambda>i. itemID (items ! i) = ident) [0..<nat itemCount] of
           None \<Rightarrow> (UpdateNotFound, items)
         | Some p \<Rightarrow> (UpdatedOK, items[p := updateItemMenu (items ! p) edits])))"

text \<open>
  \<^verbatim>\<open>clearAllItems\<close>, with the accepted answer and whether the file opens for truncation:
  after a yes the file is emptied, the record count set to 0 and the counter to 100.
\<close>

definition clearAllItems :: "Store \<Rightarrow> char \<Rightarrow> bool \<Rightarrow> Store" where
  "clearAllItems st confirm opens =
     (if confirm = CHR ''Y'' \<or> confirm = CHR ''y'' then
        (if \<not> opens then st else st\<lparr>st_itemCount := 0, st_nextID := 100\<rparr>)
      else st)"

section \<open>The main menu\<close>

text \<open>
  The choices of \<^verbatim>\<open>mainMenu\<close> that change the store, each with what its prompts accepted,
  and the \<^verbatim>\<open>switch\<close> that runs them on the variables of \<^verbatim>\<open>main\<close>. (Help, view, search
  and exit leave the store as it is.) A run is a sequence of choices; it stops at a fault.
\<close>

datatype command =
    ReportLost Entry char "int32 list"
  | ReportFound Entry char "int32 list"
  | UpdateItem int32 "edit list"
  | DeleteItem int32 char
  | MarkClaimed int32
  | MarkMatched int32 int32
  | SortItems sortKey bool
  | ClearAll char bool

fun execute :: "command \<Rightarrow> Store \<Rightarrow> fault + Store" where
  "execute (ReportLost e searchChoice choices) st = addLostItem st e searchChoice choices"
| "execute (ReportFound e searchChoice choices) st = addFoundItem st e searchChoice choices"
| "execute (UpdateItem ident edits) st =
     Inr (st\<lparr>st_items := snd (updateItem (st_items st) (st_itemCount st) ident edits)\<rparr>)"
| "execute (DeleteItem ident confirm) st =
     (case deleteItem (st_items st) (st_itemCount st) ident confirm of
        (_, items', itemCount') \<Rightarrow> Inr (st\<lparr>st_items := items', st_itemCount := itemCount'\<rparr>))"
| "execute (MarkClaimed ident) st =
     Inr (st\<lparr>st_items := snd (markAsClaimed (st_items st) (st_itemCount st) ident)\<rparr>)"
| "execute (MarkMatched id1 id2) st =
     Inr (st\<lparr>st_items := snd (markItemAsMatched (st_items st) (st_itemCount st) id1 id2)\<rparr>)"
| "execute (SortItems choice flag) st =
     Inr (st\<lparr>st_items := performSort choice flag (st_items st) (st_itemCount st)\<rparr>)"
| "execute (ClearAll confirm opens) st = Inr (clearAllItems st confirm opens)"

fun run :: "command list \<Rightarrow> Store \<Rightarrow> fault + Store" where
  "run [] st = Inr st"
| "run (c # cs) st = (case execute c st of Inl f \<Rightarrow> Inl f | Inr st' \<Rightarrow> run cs st')"

fun isClearAll :: "command \<Rightarrow> bool" where
  "isClearAll (ClearAll confirm opens) = True"
| "isClearAll _ = False"

fun isAdd :: "command \<Rightarrow> bool" where
  "isAdd (ReportLost e searchChoice choices) = True"
| "isAdd (ReportFound e searchChoice choices) = True"
| "isAdd _ = False"

text \<open>
  The invariant of the store: the live records fit the array, their ids are pairwise
  different and below the counter, and the counter is not below 100.
\<close>

definition storeInv :: "Store \<Rightarrow> bool" where
  "storeInv st \<longleftrightarrow>
     0 \<le> st_itemCount st \<and> st_itemCount st \<le> st_capacity st \<and> 0 < st_capacity st
     \<and> length (st_items st) = nat (st_capacity st)
     \<and> distinct (map itemID (take (nat (st_itemCount st)) (st_items st)))
     \<and> (\<forall>v \<in> set (map itemID (take (nat (st_itemCount st)) (st_items st))).
           sint v < sint (st_nextID st))
     \<and> 100 \<le> sint (st_nextID st)"

text \<open>The two reports of the example scenario, as typed.\<close>

definition lost_entry :: Entry where
  "lost_entry = \<lparr>e_name = ''Wallet'', e_category = ''Accessories'',
     e_description = ''Brown leather'', e_date = ''2026-01-05'', e_location = ''Library'',
     e_personName = ''Abebe'', e_personContact = ''0911''\<rparr>"

definition found_entry :: Entry where
  "found_entry = \<lparr>e_name = ''wallet'', e_category = ''Accessories'',
     e_description = ''Found near a desk'', e_date = ''2026-01-06'', e_location = ''Library'',
     e_personName = [], e_personContact = []\<rparr>"

chapter \<open>Verified properties\<close>

section \<open>Letter case\<close>

text \<open>
  The program compares texts after \<^verbatim>\<open>toLowerCase\<close>. Two characters have the same
  image under \<^verbatim>\<open>tolower\<close> exactly when they are the same letter, so the comparison of
  the lowered texts is equality up to letter case, and \<^verbatim>\<open>containsSubstring\<close> is
  containment up to letter case.
\<close>

lemma tolower_upper:
  assumes "65 \<le> (of_char c :: nat)" "(of_char c :: nat) \<le> 90"
  shows "(of_char (tolower c) :: nat) = of_char c + 32"
  using assms by (simp add: tolower_def Let_def)

lemma tolower_other:
  "\<not> (65 \<le> (of_char c :: nat) \<and> (of_char c :: nat) \<le> 90) \<Longrightarrow> tolower c = c"
  by (auto simp: tolower_def Let_def)

lemma char_eq_of_char: "c = d \<longleftrightarrow> (of_char c :: nat) = of_char d"
  by simp

lemma tolower_eq_iff: "tolower c = tolower d \<longleftrightarrow> sameLetter c d"
proof (cases "65 \<le> (of_char c :: nat) \<and> (of_char c :: nat) \<le> 90")
  case uc: True
  show ?thesis
  proof (cases "65 \<le> (of_char d :: nat) \<and> (of_char d :: nat) \<le> 90")
    case True
    have "tolower c = tolower d \<longleftrightarrow> (of_char (tolower c) :: nat) = of_char (tolower d)"
      by (rule char_eq_of_char)
    also have "\<dots> \<longleftrightarrow> (of_char c :: nat) = of_char d"
      using uc True by (simp only: tolower_upper) simp
    also have "\<dots> \<longleftrightarrow> sameLetter c d"
      using uc True unfolding sameLetter_def char_eq_of_char [of c d] by auto
    finally show ?thesis .
  next
    case False
    have "tolower c = tolower d \<longleftrightarrow> (of_char (tolower c) :: nat) = of_char d"
      using tolower_other [OF False] char_eq_of_char [of "tolower c" d] by simp
    also have "\<dots> \<longleftrightarrow> (of_char d :: nat) = of_char c + 32"
      using uc by (simp only: tolower_upper) auto
    also have "\<dots> \<longleftrightarrow> sameLetter c d"
      using uc False unfolding sameLetter_def char_eq_of_char [of c d] by auto
    finally show ?thesis .
  qed
next
  case nc: False
  show ?thesis
  proof (cases "65 \<le> (of_char d :: nat) \<and> (of_char d :: nat) \<le> 90")
    case True
    have "tolower c = tolower d \<longleftrightarrow> (of_char c :: nat) = of_char (tolower d)"
      using tolower_other [OF nc] char_eq_of_char [of c "tolower d"] by simp
    also have "\<dots> \<longleftrightarrow> (of_char c :: nat) = of_char d + 32"
      using True by (simp only: tolower_upper)
    also have "\<dots> \<longleftrightarrow> sameLetter c d"
      using nc True unfolding sameLetter_def char_eq_of_char [of c d] by auto
    finally show ?thesis .
  next
    case False
    have "tolower c = tolower d \<longleftrightarrow> c = d"
      using tolower_other [OF nc] tolower_other [OF False] by simp
    also have "\<dots> \<longleftrightarrow> sameLetter c d"
      using nc False unfolding sameLetter_def by auto
    finally show ?thesis .
  qed
qed

lemma toLowerCase_eq_iff: "toLowerCase a = toLowerCase b \<longleftrightarrow> equalIgnoringCase a b"
  unfolding toLowerCase_def equalIgnoringCase_def
proof (induction a arbitrary: b)
  case Nil
  then show ?case by auto
next
  case (Cons c cs)
  then show ?case by (cases b) (simp_all add: tolower_eq_iff)
qed

lemma sublist_iff_segment:
  "sublist xs ys \<longleftrightarrow> (\<exists>i < Suc (length ys). take (length xs) (drop i ys) = xs)"
proof
  assume "sublist xs ys"
  then obtain ps ss where "ys = ps @ xs @ ss" by (auto simp: sublist_def)
  then have "length ps < Suc (length ys)" "take (length xs) (drop (length ps) ys) = xs"
    by simp_all
  then show "\<exists>i < Suc (length ys). take (length xs) (drop i ys) = xs" by blast
next
  assume "\<exists>i < Suc (length ys). take (length xs) (drop i ys) = xs"
  then obtain i where i: "take (length xs) (drop i ys) = xs" by blast
  have "drop i ys = take (length xs) (drop i ys) @ drop (length xs) (drop i ys)"
    by (rule append_take_drop_id [symmetric])
  then have "take i ys @ drop i ys
      = take i ys @ take (length xs) (drop i ys) @ drop (length xs) (drop i ys)"
    by (rule arg_cong)
  then have "ys = take i ys @ take (length xs) (drop i ys) @ drop (length xs) (drop i ys)"
    by (simp only: append_take_drop_id)
  then have "ys = take i ys @ xs @ drop (length xs) (drop i ys)" by (simp only: i)
  then show "sublist xs ys" unfolding sublist_def by blast
qed

text \<open>
  The two notions at the texts of the examples, evaluated from their definitions alone.
\<close>

lemma ignoringCase_examples:
  "equalIgnoringCase ''Lost'' ''LOST'' \<and> equalIgnoringCase ''fOUND'' ''Found''
   \<and> \<not> equalIgnoringCase ''Found'' ''Lost'' \<and> \<not> equalIgnoringCase ''Lost'' ''Los''
   \<and> \<not> equalIgnoringCase ''Lost'' []
   \<and> containsIgnoringCase ''Brown WALLET'' ''wallet'' \<and> containsIgnoringCase ''Keys'' []
   \<and> \<not> containsIgnoringCase ''wallet'' ''Brown wallet''
   \<and> \<not> containsIgnoringCase ''Keys'' ''wallet''"
  by code_simp

section \<open>Loops that collect positions\<close>

lemma fold_collect:
  "fold (\<lambda>i results. if P i then results @ [i] else results) xs acc = acc @ filter P xs"
  by (induction xs arbitrary: acc) simp_all

lemma searchByStatus_filter:
  "searchByStatus items itemCount query =
     filter (\<lambda>i. toLowerCase (status (items ! i)) = toLowerCase query \<and> matched (items ! i) = 0)
       [0..<nat itemCount]"
  by (simp add: searchByStatus_def Let_def fold_collect)

text \<open>
  Claim C5. For every store whose array holds its live records and every query string,
  the status search returns, in store order and without repetition, exactly the positions
  below the record count whose record has a status equal to the query ignoring case
  (same length, the same letter at every position) and has the matched flag 0; a record
  whose matched flag is not 0 is never returned, whatever its status.
\<close>

theorem searchByStatus_unmatched_only:
  assumes "nat itemCount \<le> length items"
  shows "sorted_wrt (<) (searchByStatus items itemCount query)
   \<and> (\<forall>i. i \<in> set (searchByStatus items itemCount query) \<longleftrightarrow>
          (int i < itemCount
           \<and> equalIgnoringCase (status (items ! i)) query
           \<and> matched (items ! i) = 0))
   \<and> (\<forall>i. matched (items ! i) \<noteq> 0 \<longrightarrow> i \<notin> set (searchByStatus items itemCount query))"
proof -
  have "sorted_wrt (<) (searchByStatus items itemCount query)"
    unfolding searchByStatus_filter by (rule sorted_wrt_filter) (simp add: sorted_wrt_upt)
  moreover have "\<forall>i. i \<in> set (searchByStatus items itemCount query) \<longleftrightarrow>
          (int i < itemCount
           \<and> equalIgnoringCase (status (items ! i)) query
           \<and> matched (items ! i) = 0)"
    unfolding searchByStatus_filter toLowerCase_eq_iff by auto
  ultimately show ?thesis by blast
qed

text \<open>
  The theorem at the example store after the lost wallet was matched, with a second lost
  wallet and the found wallet: a search for \<open>LOST\<close> skips the matched record at
  position 0, returns the unmatched record at position 1, whose status \<open>Lost\<close> equals the
  query ignoring case, and leaves out the unmatched record at position 2, whose status
  \<open>Found\<close> does not.
\<close>

theorem searchByStatus_unmatched_only_witness:
  "matched ([wallet_lost\<lparr>matched := 1\<rparr>, wallet_lost, wallet_found] ! 0) \<noteq> 0
   \<and> 0 \<notin> set (searchByStatus [wallet_lost\<lparr>matched := 1\<rparr>, wallet_lost, wallet_found] 3 ''LOST'')
   \<and> searchByStatus [wallet_lost\<lparr>matched := 1\<rparr>, wallet_lost, wallet_found] 3 ''LOST'' = [1]
   \<and> equalIgnoringCase ''Lost'' ''LOST''
   \<and> matched wallet_found = 0
   \<and> \<not> equalIgnoringCase ''Found'' ''LOST''"
proof -
  let ?xs = "[wallet_lost\<lparr>matched := 1\<rparr>, wallet_lost, wallet_found]"
  have m: "matched (?xs ! 0) \<noteq> 0" by (simp add: wallet_lost_def)
  have e: "searchByStatus ?xs 3 ''LOST'' = [1]" by code_simp
  have h: "nat 3 \<le> length ?xs" by simp
  have s1: "status (?xs ! 1) = ''Lost''" by (simp add: wallet_lost_def)
  have s2: "status (?xs ! 2) = ''Found''" "matched (?xs ! 2) = 0" "matched wallet_found = 0"
    by (simp_all add: wallet_found_def)
  note t = searchByStatus_unmatched_only [OF h, of "''LOST''"]
  from t m have n0: "0 \<notin> set (searchByStatus ?xs 3 ''LOST'')" by blast
  from t have "1 \<in> set (searchByStatus ?xs 3 ''LOST'')
      \<longleftrightarrow> int 1 < 3 \<and> equalIgnoringCase (status (?xs ! 1)) ''LOST'' \<and> matched (?xs ! 1) = 0"
    by blast
  then have p1: "equalIgnoringCase ''Lost'' ''LOST''" unfolding e s1 by simp
  from t have "2 \<in> set (searchByStatus ?xs 3 ''LOST'')
      \<longleftrightarrow> int 2 < 3 \<and> equalIgnoringCase (status (?xs ! 2)) ''LOST'' \<and> matched (?xs ! 2) = 0"
    by blast
  then have p2: "\<not> equalIgnoringCase ''Found'' ''LOST''" unfolding e s2 by simp
  from m n0 e p1 s2(3) p2 show ?thesis by blast
qed

section \<open>Looking records up by id\<close>

lemma findBoth_fold:
  "fold (\<lambda>i (item1, item2).
             (if itemID (items ! i) = id1 then Some i else item1,
              if itemID (items ! i) = id2 then Some i else item2)) ps (a, b)
   = (findLast items ps id1 a, findLast items ps id2 b)"
  by (induction ps arbitrary: a b) (simp_all add: findLast_def)

lemma findBoth_findLast:
  "findBoth items itemCount id1 id2 =
     (findLast items [0..<nat itemCount] id1 None, findLast items [0..<nat itemCount] id2 None)"
  by (simp add: findBoth_def findBoth_fold)

lemma findLast_upt_Suc:
  "findLast items [0..<Suc n] ident acc =
     (if itemID (items ! n) = ident then Some n else findLast items [0..<n] ident acc)"
  by (simp add: findLast_def)

lemma findLast_None:
  "findLast items [0..<n] ident None = None \<longleftrightarrow> (\<forall>i<n. itemID (items ! i) \<noteq> ident)"
  by (induction n) (auto simp: findLast_upt_Suc less_Suc_eq findLast_def)

lemma findLast_Some:
  "findLast items [0..<n] ident None = Some p \<Longrightarrow> p < n \<and> itemID (items ! p) = ident"
  by (induction n) (auto simp: findLast_upt_Suc less_Suc_eq findLast_def split: if_splits)

lemma distinct_ids_unique:
  assumes "distinct (map itemID (take n items))" "n \<le> length items" "p < n" "q < n"
    "itemID (items ! p) = itemID (items ! q)"
  shows "p = q"
proof -
  have "map itemID (take n items) ! p = map itemID (take n items) ! q"
    using assms by simp
  moreover have "p < length (map itemID (take n items))" "q < length (map itemID (take n items))"
    using assms by simp_all
  ultimately show ?thesis using assms(1) nth_eq_iff_index_eq by blast
qed

lemma findLast_distinct:
  assumes "distinct (map itemID (take n items))" "n \<le> length items" "p < n"
  shows "findLast items [0..<n] (itemID (items ! p)) None = Some p"
proof (cases "findLast items [0..<n] (itemID (items ! p)) None")
  case None
  then show ?thesis using assms(3) findLast_None by blast
next
  case (Some q)
  then have "q < n" "itemID (items ! q) = itemID (items ! p)"
    using findLast_Some by blast+
  then have "q = p" using distinct_ids_unique assms by blast
  then show ?thesis using Some by simp
qed

lemma getItemByID_Some:
  "getItemByID items itemCount ident = Some p \<longleftrightarrow>
     (int p < itemCount \<and> itemID (items ! p) = ident \<and> (\<forall>j<p. itemID (items ! j) \<noteq> ident))"
proof
  assume "getItemByID items itemCount ident = Some p"
  then obtain i where i: "i < nat itemCount" "itemID (items ! ([0..<nat itemCount] ! i)) = ident"
      "p = [0..<nat itemCount] ! i" "\<forall>j<i. itemID (items ! ([0..<nat itemCount] ! j)) \<noteq> ident"
    unfolding getItemByID_def find_Some_iff by auto
  then have "p = i" by simp
  with i show "int p < itemCount \<and> itemID (items ! p) = ident \<and> (\<forall>j<p. itemID (items ! j) \<noteq> ident)"
    by auto
next
  assume a: "int p < itemCount \<and> itemID (items ! p) = ident \<and> (\<forall>j<p. itemID (items ! j) \<noteq> ident)"
  then have "p < nat itemCount" by linarith
  with a show "getItemByID items itemCount ident = Some p"
    unfolding getItemByID_def find_Some_iff by (intro exI[of _ p]) auto
qed

lemma getItemByID_None:
  "getItemByID items itemCount ident = None \<longleftrightarrow>
     (\<forall>i. int i < itemCount \<longrightarrow> itemID (items ! i) \<noteq> ident)"
proof -
  have "\<And>i. i < nat itemCount \<longleftrightarrow> int i < itemCount" by linarith
  then show ?thesis unfolding getItemByID_def find_None_iff by auto
qed


lemma markAsMatched_nth:
  assumes "a < length items" "b < length items" "a \<noteq> b"
  shows "markAsMatched items a b ! a = (items ! a)\<lparr>matched := 1, matchedItemID := itemID (items ! b)\<rparr>"
    and "markAsMatched items a b ! b = (items ! b)\<lparr>matched := 1, matchedItemID := itemID (items ! a)\<rparr>"
    and "\<And>k. k \<noteq> a \<Longrightarrow> k \<noteq> b \<Longrightarrow> markAsMatched items a b ! k = items ! k"
    and "length (markAsMatched items a b) = length items"
  using assms by (simp_all add: markAsMatched_def Let_def nth_list_update)

section \<open>Matching two records by their ids\<close>

text \<open>
  Claim C2. In a store whose live records carry pairwise different ids, take two different
  live records \<open>a\<close> and \<open>b\<close> with a status of the enumeration (Lost or Found) and call the
  match-two-ids operation on their ids. It succeeds exactly when one of them is Lost and
  the other Found, neither has a matched flag other than 0, and the ids differ. After a
  success each of the two carries the other's id in \<open>matchedItemID\<close> and has matched 1,
  with its own id as before; after a failure the array is as before. For any two ids, a
  success means that they differ.
\<close>

theorem markItemAsMatched_symmetric:
  assumes len: "nat itemCount \<le> length items"
    and dist: "distinct (map itemID (take (nat itemCount) items))"
    and a: "int a < itemCount" and b: "int b < itemCount" and ab: "a \<noteq> b"
    and sa: "status (items ! a) \<in> {''Lost'', ''Found''}"
    and sb: "status (items ! b) \<in> {''Lost'', ''Found''}"
    and run: "markItemAsMatched items itemCount (itemID (items ! a)) (itemID (items ! b)) = (r, items')"
  shows "(r = MatchedOK \<longleftrightarrow>
            ((status (items ! a) = ''Lost'' \<and> status (items ! b) = ''Found'')
              \<or> (status (items ! a) = ''Found'' \<and> status (items ! b) = ''Lost''))
            \<and> matched (items ! a) = 0 \<and> matched (items ! b) = 0
            \<and> itemID (items ! a) \<noteq> itemID (items ! b))
       \<and> (r = MatchedOK \<longrightarrow>
            matchedItemID (items' ! a) = itemID (items' ! b)
            \<and> matchedItemID (items' ! b) = itemID (items' ! a)
            \<and> matched (items' ! a) = 1 \<and> matched (items' ! b) = 1
            \<and> itemID (items' ! a) = itemID (items ! a)
            \<and> itemID (items' ! b) = itemID (items ! b))
       \<and> (r \<noteq> MatchedOK \<longrightarrow> items' = items)
       \<and> (\<forall>id1 id2. fst (markItemAsMatched items itemCount id1 id2) = MatchedOK \<longrightarrow> id1 \<noteq> id2)"
proof -
  have an: "a < nat itemCount" and bn: "b < nat itemCount" using a b by linarith+
  have two: "\<not> itemCount < 2" using a b ab by linarith
  have ids: "itemID (items ! a) \<noteq> itemID (items ! b)"
    using distinct_ids_unique [OF dist len an bn] ab by blast
  have fb: "findBoth items itemCount (itemID (items ! a)) (itemID (items ! b)) = (Some a, Some b)"
    using findLast_distinct [OF dist len an] findLast_distinct [OF dist len bn]
    by (simp add: findBoth_findLast)
  have la: "a < length items" and lb: "b < length items" using an bn len by linarith+
  have self: "\<forall>id1 id2. fst (markItemAsMatched items itemCount id1 id2) = MatchedOK \<longrightarrow> id1 \<noteq> id2"
    by (auto simp: markItemAsMatched_def)
  show ?thesis
  proof (cases "(status (items ! a) = ''Lost'' \<and> status (items ! b) = ''Lost'')
                \<or> (status (items ! a) = ''Found'' \<and> status (items ! b) = ''Found'')")
    case True
    then have "r = SameStatus" "items' = items"
      using run two ids fb by (auto simp: markItemAsMatched_def)
    then show ?thesis using True self by auto
  next
    case diff: False
    then have opp: "(status (items ! a) = ''Lost'' \<and> status (items ! b) = ''Found'')
              \<or> (status (items ! a) = ''Found'' \<and> status (items ! b) = ''Lost'')"
      using sa sb by auto
    show ?thesis
    proof (cases "matched (items ! a) \<noteq> 0 \<or> matched (items ! b) \<noteq> 0")
      case True
      then have "r = AlreadyMatched" "items' = items"
        using run two ids fb diff by (auto simp: markItemAsMatched_def)
      then show ?thesis using True self by auto
    next
      case False
      then have res: "r = MatchedOK" "items' = markAsMatched items a b"
        using run two ids fb diff by (auto simp: markItemAsMatched_def)
      show ?thesis
        using res opp False ids self markAsMatched_nth(1,2) [OF la lb ab] by simp
    qed
  qed
qed

text \<open>
  The theorem at the example store: the lost wallet 100 and the found wallet 101.
\<close>

theorem markItemAsMatched_symmetric_witness:
  "markItemAsMatched [wallet_lost, wallet_found] 2 100 101 =
     (MatchedOK, [wallet_lost\<lparr>matched := 1, matchedItemID := 101\<rparr>,
                  wallet_found\<lparr>matched := 1, matchedItemID := 100\<rparr>])
   \<and> matchedItemID (snd (markItemAsMatched [wallet_lost, wallet_found] 2 100 101) ! 0) = 101
   \<and> matchedItemID (snd (markItemAsMatched [wallet_lost, wallet_found] 2 100 101) ! 1) = 100"
proof -
  let ?xs = "[wallet_lost, wallet_found]"
  let ?ys = "[wallet_lost\<lparr>matched := 1, matchedItemID := 101\<rparr>,
              wallet_found\<lparr>matched := 1, matchedItemID := 100\<rparr>]"
  have ida: "itemID (?xs ! 0) = 100" and idb: "itemID (?xs ! 1) = 101"
    by (simp_all add: wallet_lost_def wallet_found_def)
  have run: "markItemAsMatched ?xs 2 (itemID (?xs ! 0)) (itemID (?xs ! 1)) = (MatchedOK, ?ys)"
    by code_simp
  have h1: "nat 2 \<le> length ?xs" by simp
  have h2: "distinct (map itemID (take (nat 2) ?xs))"
    by (simp add: wallet_lost_def wallet_found_def)
  have h3: "int 0 < 2" and h4: "int 1 < 2" and h5: "(0::nat) \<noteq> 1" by simp_all
  have h6: "status (?xs ! 0) \<in> {''Lost'', ''Found''}"
    and h7: "status (?xs ! 1) \<in> {''Lost'', ''Found''}"
    by (simp_all add: wallet_lost_def wallet_found_def)
  from markItemAsMatched_symmetric [OF h1 h2 h3 h4 h5 h6 h7 run]
  have "matchedItemID (?ys ! 0) = itemID (?ys ! 1) \<and> matchedItemID (?ys ! 1) = itemID (?ys ! 0)"
    by blast
  then show ?thesis using run ida idb by (simp add: wallet_lost_def wallet_found_def)
qed

text \<open>
  Claim C10, as amended. For every store with at least two records and every id \<open>a\<close>,
  the match-two-ids operation called with both ids equal to \<open>a\<close> answers with the
  self-match rejection and leaves the array as it was, whether or not a record with id
  \<open>a\<close> exists: the test of the two ids comes before the lookup. With fewer than two
  records the operation stops before that test with the not-enough-items message, the
  array unchanged as well.
\<close>

theorem markItemAsMatched_self:
  "(2 \<le> itemCount \<longrightarrow> markItemAsMatched items itemCount a a = (SelfMatch, items))
   \<and> (itemCount < 2 \<longrightarrow> markItemAsMatched items itemCount a a = (NotEnoughItems, items))"
  by (simp add: markItemAsMatched_def)

theorem markItemAsMatched_self_witness:
  "(2::int) \<le> 2
   \<and> getItemByID [wallet_lost, wallet_found] 2 7 = None
   \<and> markItemAsMatched [wallet_lost, wallet_found] 2 7 7 = (SelfMatch, [wallet_lost, wallet_found])"
proof -
  have "getItemByID [wallet_lost, wallet_found] 2 7 = None" by code_simp
  then show ?thesis using markItemAsMatched_self [of 2 "[wallet_lost, wallet_found]" 7] by simp
qed

text \<open>
  Claim C10 as stated fails on a store with one record: the answer there is the
  not-enough-items message, not the self-match rejection.
\<close>

theorem markItemAsMatched_self_counterexample:
  "markItemAsMatched [wallet_lost] 1 7 7 = (NotEnoughItems, [wallet_lost])
   \<and> fst (markItemAsMatched [wallet_lost] 1 7 7) \<noteq> SelfMatch"
  by (simp add: markItemAsMatched_def)


section \<open>Claiming\<close>

lemma markAsClaimed_fail1:
  "getItemByID items itemCount ident = Some p \<Longrightarrow> matched (items ! p) = 0 \<Longrightarrow>
   markAsClaimed items itemCount ident = (NotMatchedYet, items)"
  by (simp add: markAsClaimed_def)

lemma markAsClaimed_fail2:
  "getItemByID items itemCount ident = Some p \<Longrightarrow> matched (items ! p) \<noteq> 0 \<Longrightarrow>
   claimed (items ! p) = 1 \<Longrightarrow>
   markAsClaimed items itemCount ident = (AlreadyClaimed, items)"
  by (simp add: markAsClaimed_def)

lemma markAsClaimed_ok:
  assumes "getItemByID items itemCount ident = Some p" "matched (items ! p) \<noteq> 0"
    "claimed (items ! p) \<noteq> 1" "p < length items"
  shows "markAsClaimed items itemCount ident =
     (ClaimedOK,
      if matchedItemID (items ! p) \<noteq> - 1 then
        (case getItemByID (items[p := (items ! p)\<lparr>claimed := 1\<rparr>]) itemCount (matchedItemID (items ! p)) of
           None \<Rightarrow> items[p := (items ! p)\<lparr>claimed := 1\<rparr>]
         | Some q \<Rightarrow> (items[p := (items ! p)\<lparr>claimed := 1\<rparr>])
                       [q := ((items[p := (items ! p)\<lparr>claimed := 1\<rparr>]) ! q)\<lparr>claimed := 1\<rparr>])
      else items[p := (items ! p)\<lparr>claimed := 1\<rparr>])"
  using assms by (simp add: markAsClaimed_def Let_def split: option.splits)


text \<open>
  Claim C3. In a store whose live records carry pairwise different ids, let the id resolve
  to the live record at position \<open>p\<close>, whose claimed flag is 0 or 1. Then \<^verbatim>\<open>markAsClaimed\<close>
  succeeds exactly when that record has a matched flag other than 0 and claimed 0; when it
  does not succeed the array is as before; and when it succeeds the record at \<open>p\<close> has
  claimed 1, and so has every live record whose id is the \<open>matchedItemID\<close> of the target
  (when that is not the sentinel -1).
\<close>

theorem markAsClaimed_precondition:
  assumes len: "nat itemCount \<le> length items"
    and dist: "distinct (map itemID (take (nat itemCount) items))"
    and target: "getItemByID items itemCount ident = Some p"
    and flag: "claimed (items ! p) \<in> {0, 1}"
    and run: "markAsClaimed items itemCount ident = (r, items')"
  shows "(r = ClaimedOK \<longleftrightarrow> matched (items ! p) \<noteq> 0 \<and> claimed (items ! p) = 0)
       \<and> (r \<noteq> ClaimedOK \<longrightarrow> items' = items)
       \<and> (r = ClaimedOK \<longrightarrow>
            claimed (items' ! p) = 1
            \<and> (\<forall>q. int q < itemCount \<and> matchedItemID (items ! p) \<noteq> - 1
                    \<and> itemID (items ! q) = matchedItemID (items ! p)
                  \<longrightarrow> claimed (items' ! q) = 1))"
proof -
  have "int p < itemCount" using target by (simp add: getItemByID_Some)
  then have pn: "p < nat itemCount" by linarith
  then have pl: "p < length items" using len by linarith
  show ?thesis
  proof (cases "matched (items ! p) = 0")
    case True
    then have "r = NotMatchedYet" "items' = items"
      using run markAsClaimed_fail1 [OF target] by simp_all
    then show ?thesis using True by simp
  next
    case m: False
    show ?thesis
    proof (cases "claimed (items ! p) = 1")
      case True
      then have "r = AlreadyClaimed" "items' = items"
        using run markAsClaimed_fail2 [OF target m] by simp_all
      then show ?thesis using True by simp
    next
      case c: False
      then have c0: "claimed (items ! p) = 0" using flag by simp
      define items1 where "items1 = items[p := (items ! p)\<lparr>claimed := 1\<rparr>]"
      have ids1: "\<And>k. itemID (items1 ! k) = itemID (items ! k)"
        using pl by (simp add: items1_def nth_list_update)
      have cp: "claimed (items1 ! p) = 1" using pl by (simp add: items1_def)
      have l1: "length items1 = length items" by (simp add: items1_def)
      have res: "r = ClaimedOK" "items' =
        (if matchedItemID (items ! p) \<noteq> - 1 then
          (case getItemByID items1 itemCount (matchedItemID (items ! p)) of
             None \<Rightarrow> items1
           | Some q \<Rightarrow> items1[q := (items1 ! q)\<lparr>claimed := 1\<rparr>])
         else items1)"
        using run markAsClaimed_ok [OF target m c pl] unfolding items1_def by simp_all
      have post: "claimed (items' ! p) = 1
            \<and> (\<forall>q. int q < itemCount \<and> matchedItemID (items ! p) \<noteq> - 1
                    \<and> itemID (items ! q) = matchedItemID (items ! p)
                  \<longrightarrow> claimed (items' ! q) = 1)"
      proof (cases "matchedItemID (items ! p) = - 1")
        case True
        then have "items' = items1" using res by simp
        then show ?thesis using cp True by simp
      next
        case link: False
        show ?thesis
        proof (cases "getItemByID items1 itemCount (matchedItemID (items ! p))")
          case None
          then have "items' = items1" using res link by simp
          moreover have "\<forall>q. int q < itemCount \<longrightarrow> itemID (items ! q) \<noteq> matchedItemID (items ! p)"
            using None ids1 by (simp add: getItemByID_None)
          ultimately show ?thesis using cp by blast
        next
          case (Some q0)
          then have upd: "items' = items1[q0 := (items1 ! q0)\<lparr>claimed := 1\<rparr>]"
            using res link by simp
          have q0: "int q0 < itemCount" "itemID (items ! q0) = matchedItemID (items ! p)"
            using Some ids1 by (simp_all add: getItemByID_Some)
          then have q0n: "q0 < nat itemCount" by linarith
          then have q0l: "q0 < length items1" using len l1 by linarith
          have uniq: "q = q0"
            if "int q < itemCount" "itemID (items ! q) = matchedItemID (items ! p)" for q
          proof -
            have "q < nat itemCount" using that(1) by linarith
            moreover have "itemID (items ! q) = itemID (items ! q0)" using that(2) q0(2) by simp
            ultimately show "q = q0" using distinct_ids_unique [OF dist len _ q0n] by blast
          qed
          have "claimed (items' ! q0) = 1" using upd q0l by simp
          moreover have "claimed (items' ! p) = 1"
            using upd q0l cp l1 pl by (cases "p = q0") (simp_all add: nth_list_update)
          ultimately show ?thesis using uniq by blast
        qed
      qed
      show ?thesis using res(1) m c0 post by simp
    qed
  qed
qed


text \<open>
  The theorem at the example store after the two wallets were matched: claiming 100
  marks both records.
\<close>

theorem markAsClaimed_precondition_witness:
  "getItemByID [wallet_lost\<lparr>matched := 1, matchedItemID := 101\<rparr>,
                wallet_found\<lparr>matched := 1, matchedItemID := 100\<rparr>] 2 100 = Some 0
   \<and> markAsClaimed [wallet_lost\<lparr>matched := 1, matchedItemID := 101\<rparr>,
                   wallet_found\<lparr>matched := 1, matchedItemID := 100\<rparr>] 2 100 =
       (ClaimedOK, [wallet_lost\<lparr>matched := 1, matchedItemID := 101, claimed := 1\<rparr>,
                    wallet_found\<lparr>matched := 1, matchedItemID := 100, claimed := 1\<rparr>])
   \<and> claimed ([wallet_lost\<lparr>matched := 1, matchedItemID := 101, claimed := 1\<rparr>,
                 wallet_found\<lparr>matched := 1, matchedItemID := 100, claimed := 1\<rparr>] ! 1) = 1"
proof -
  let ?xs = "[wallet_lost\<lparr>matched := 1, matchedItemID := 101\<rparr>,
              wallet_found\<lparr>matched := 1, matchedItemID := 100\<rparr>]"
  let ?ys = "[wallet_lost\<lparr>matched := 1, matchedItemID := 101, claimed := 1\<rparr>,
              wallet_found\<lparr>matched := 1, matchedItemID := 100, claimed := 1\<rparr>]"
  have h1: "nat 2 \<le> length ?xs" by simp
  have h2: "distinct (map itemID (take (nat 2) ?xs))"
    by (simp add: wallet_lost_def wallet_found_def)
  have h3: "getItemByID ?xs 2 100 = Some 0" by code_simp
  have h4: "claimed (?xs ! 0) \<in> {0, 1}" by (simp add: wallet_lost_def)
  have run: "markAsClaimed ?xs 2 100 = (ClaimedOK, ?ys)" by code_simp
  have link: "int 1 < 2 \<and> matchedItemID (?xs ! 0) \<noteq> - 1
        \<and> itemID (?xs ! 1) = matchedItemID (?xs ! 0)"
    by (simp add: wallet_lost_def wallet_found_def)
  from markAsClaimed_precondition [OF h1 h2 h3 h4 run] link
  have "claimed (?ys ! 1) = 1" by blast
  with h3 run show ?thesis by blast
qed

section \<open>Deleting a record\<close>

lemma shift_fold_length:
  "length (fold (\<lambda>i xs. xs[i := xs ! (i + 1)]) ps xs) = length xs"
  by (induction ps arbitrary: xs) simp_all

lemma shift_fold_nth:
  "k \<le> m \<Longrightarrow> m < length xs \<Longrightarrow> i < length xs \<Longrightarrow>
   fold (\<lambda>i xs. xs[i := xs ! (i + 1)]) [k..<m] xs ! i
     = (if k \<le> i \<and> i < m then xs ! (i + 1) else xs ! i)"
proof (induction m arbitrary: i)
  case 0
  then show ?case by simp
next
  case (Suc m)
  show ?case
  proof (cases "k = Suc m")
    case True
    then show ?thesis by auto
  next
    case False
    then have km: "k \<le> m" using Suc.prems by simp
    have ml: "m < length xs" using Suc.prems by simp
    let ?ys = "fold (\<lambda>i xs. xs[i := xs ! (i + 1)]) [k..<m] xs"
    have step: "fold (\<lambda>i xs. xs[i := xs ! (i + 1)]) [k..<Suc m] xs = ?ys[m := ?ys ! (m + 1)]"
      using km by simp
    have ly: "length ?ys = length xs" by (rule shift_fold_length)
    have nxt: "?ys ! (m + 1) = xs ! (m + 1)"
      using Suc.IH [of "m + 1"] km ml Suc.prems by simp
    have ih: "?ys ! i = (if k \<le> i \<and> i < m then xs ! (i + 1) else xs ! i)"
      using Suc.IH km ml Suc.prems by simp
    show ?thesis
      unfolding step using ly ml nxt ih Suc.prems km
      by (auto simp: nth_list_update less_Suc_eq)
  qed
qed

lemma shiftDown_length: "length (shiftDown items k itemCount) = length items"
  by (simp only: shiftDown_def shift_fold_length)

lemma shiftDown_take:
  assumes "int k < itemCount" "nat itemCount \<le> length items"
  shows "take (nat (itemCount - 1)) (shiftDown items k itemCount)
           = take k items @ drop (Suc k) (take (nat itemCount) items)"
proof (rule nth_equalityI)
  have kn: "k < nat itemCount" using assms by linarith
  show "length (take (nat (itemCount - 1)) (shiftDown items k itemCount))
          = length (take k items @ drop (Suc k) (take (nat itemCount) items))"
    using assms kn by (simp add: shiftDown_length)
next
  fix i assume "i < length (take (nat (itemCount - 1)) (shiftDown items k itemCount))"
  then have i: "i < nat (itemCount - 1)" by simp
  have kn: "k < nat itemCount" using assms by linarith
  have km: "k \<le> nat (itemCount - 1)" using assms by linarith
  have ml: "nat (itemCount - 1) < length items" using assms by linarith
  have il: "i < length items" using i ml by linarith
  have "shiftDown items k itemCount ! i = (if k \<le> i then items ! (i + 1) else items ! i)"
    using shift_fold_nth [OF km ml il] i by (simp add: shiftDown_def)
  moreover have "(take k items @ drop (Suc k) (take (nat itemCount) items)) ! i
      = (if k \<le> i then items ! (i + 1) else items ! i)"
  proof (cases "k \<le> i")
    case True
    have "Suc k + (i - k) < nat itemCount" using True i assms by linarith
    then show ?thesis using True kn assms il
      by (simp add: nth_append min_def Suc_diff_le)
  next
    case False
    then show ?thesis using kn assms by (simp add: nth_append)
  qed
  ultimately show "take (nat (itemCount - 1)) (shiftDown items k itemCount) ! i
      = (take k items @ drop (Suc k) (take (nat itemCount) items)) ! i"
    using i by simp
qed

text \<open>
  Claim C7. In a store with room for its records, let \<open>k\<close> be the position of a live
  record that is the first one with its id (in a store with pairwise different ids: any
  live position), and let the deletion be confirmed. Then \<^verbatim>\<open>deleteItem\<close> called with that
  id succeeds, the record count goes down by one, and the new record sequence is the old
  one without the element at \<open>k\<close>: the records before \<open>k\<close> stay where they were and each
  later record moves one position down.
\<close>

theorem deleteItem_preserves_order:
  assumes len: "nat itemCount \<le> length items"
    and k: "int k < itemCount"
    and first: "\<forall>j<k. itemID (items ! j) \<noteq> itemID (items ! k)"
    and yes: "confirm \<in> {CHR ''Y'', CHR ''y''}"
  shows "\<exists>items'. deleteItem items itemCount (itemID (items ! k)) confirm
                      = (DeletedOK, items', itemCount - 1)
           \<and> take (nat (itemCount - 1)) items'
               = take k items @ drop (Suc k) (take (nat itemCount) items)
           \<and> (\<forall>i<k. items' ! i = items ! i)
           \<and> (\<forall>i. k \<le> i \<and> int i < itemCount - 1 \<longrightarrow> items' ! i = items ! (i + 1))"
proof -
  have found: "find (\<lambda>i. itemID (items ! i) = itemID (items ! k)) [0..<nat itemCount] = Some k"
    using getItemByID_Some [of items itemCount "itemID (items ! k)" k] k first
    by (simp add: getItemByID_def)
  have ne: "itemCount \<noteq> 0" using k by linarith
  have run: "deleteItem items itemCount (itemID (items ! k)) confirm
               = (DeletedOK, shiftDown items k itemCount, itemCount - 1)"
    using found ne yes by (auto simp: deleteItem_def)
  have km: "k \<le> nat (itemCount - 1)" using k by linarith
  have ml: "nat (itemCount - 1) < length items" using k len by linarith
  have nth: "\<And>i. i < length items \<Longrightarrow> shiftDown items k itemCount ! i
                = (if k \<le> i \<and> i < nat (itemCount - 1) then items ! (i + 1) else items ! i)"
    using shift_fold_nth [OF km ml] by (simp add: shiftDown_def)
  have before: "\<forall>i<k. shiftDown items k itemCount ! i = items ! i"
    using nth km ml by auto
  have after: "\<forall>i. k \<le> i \<and> int i < itemCount - 1
                 \<longrightarrow> shiftDown items k itemCount ! i = items ! (i + 1)"
  proof (intro allI impI)
    fix i assume a: "k \<le> i \<and> int i < itemCount - 1"
    then have "i < nat (itemCount - 1)" by linarith
    then show "shiftDown items k itemCount ! i = items ! (i + 1)"
      using nth [of i] a ml by simp
  qed
  show ?thesis using run shiftDown_take [OF k len] before after by blast
qed

text \<open>
  The theorem at a store of three records, deleting the middle one.
\<close>

theorem deleteItem_preserves_order_witness:
  "deleteItem [wallet_lost, wallet_found, wallet_lost\<lparr>itemID := 102\<rparr>] 3 101 (CHR ''y'')
     = (DeletedOK, [wallet_lost, wallet_lost\<lparr>itemID := 102\<rparr>, wallet_lost\<lparr>itemID := 102\<rparr>], 2)
   \<and> take 2 [wallet_lost, wallet_lost\<lparr>itemID := 102\<rparr>, wallet_lost\<lparr>itemID := 102\<rparr>]
       = [wallet_lost, wallet_lost\<lparr>itemID := 102\<rparr>]"
proof -
  let ?xs = "[wallet_lost, wallet_found, wallet_lost\<lparr>itemID := 102\<rparr>]"
  let ?ys = "[wallet_lost, wallet_lost\<lparr>itemID := 102\<rparr>, wallet_lost\<lparr>itemID := 102\<rparr>]"
  have h1: "nat 3 \<le> length ?xs" by simp
  have h2: "int 1 < 3" by simp
  have h3: "\<forall>j<1. itemID (?xs ! j) \<noteq> itemID (?xs ! 1)"
    by (simp add: wallet_lost_def wallet_found_def)
  have h4: "CHR ''y'' \<in> {CHR ''Y'', CHR ''y''}" by simp
  have ident: "itemID (?xs ! 1) = 101" by (simp add: wallet_found_def)
  have run: "deleteItem ?xs 3 101 (CHR ''y'') = (DeletedOK, ?ys, 2)" by code_simp
  from deleteItem_preserves_order [OF h1 h2 h3 h4]
  obtain items' where
    "deleteItem ?xs 3 (itemID (?xs ! 1)) (CHR ''y'') = (DeletedOK, items', 3 - 1)"
    and tk: "take (nat (3 - 1)) items' = take 1 ?xs @ drop (Suc 1) (take (nat 3) ?xs)"
    by blast
  then have "items' = ?ys" using run ident by simp
  then have "take 2 ?ys = [wallet_lost, wallet_lost\<lparr>itemID := 102\<rparr>]" using tk by simp
  then show ?thesis using run by blast
qed

section \<open>The candidate search\<close>

lemma strFind_sublist: "strFind str sub \<longleftrightarrow> sublist sub str"
  by (induction str) (simp_all add: sublist_Cons_right)

lemma containsSubstring_iff: "containsSubstring a b \<longleftrightarrow> containsIgnoringCase a b"
proof -
  have seg: "take (length (toLowerCase b)) (drop i (toLowerCase a)) = toLowerCase b
               \<longleftrightarrow> equalIgnoringCase (take (length b) (drop i a)) b" for i
  proof -
    have "take (length (toLowerCase b)) (drop i (toLowerCase a))
            = toLowerCase (take (length b) (drop i a))"
      by (simp add: toLowerCase_def take_map drop_map)
    then show ?thesis by (simp only: toLowerCase_eq_iff)
  qed
  have "containsSubstring a b \<longleftrightarrow> sublist (toLowerCase b) (toLowerCase a)"
    by (simp add: containsSubstring_def Let_def strFind_sublist)
  also have "\<dots> \<longleftrightarrow> (\<exists>i < Suc (length (toLowerCase a)).
                 take (length (toLowerCase b)) (drop i (toLowerCase a)) = toLowerCase b)"
    by (rule sublist_iff_segment)
  also have "\<dots> \<longleftrightarrow> (\<exists>i < Suc (length a). equalIgnoringCase (take (length b) (drop i a)) b)"
    unfolding seg by (simp add: toLowerCase_def)
  also have "\<dots> \<longleftrightarrow> containsIgnoringCase a b"
    by (simp only: containsIgnoringCase_def list_ex_iff set_upt Bex_def atLeastLessThan_iff) simp
  finally show ?thesis .
qed

lemma findPotentialMatches_filter:
  "findPotentialMatches items itemCount newItem =
     filter (\<lambda>i. \<not> (matched (items ! i) = 1 \<or> status (items ! i) = status newItem)
                 \<and> (overlapEitherWay (name (items ! i)) (name newItem)
                    \<or> overlapEitherWay (category (items ! i)) (category newItem)
                    \<or> overlapEitherWay (description (items ! i)) (description newItem)
                    \<or> overlapEitherWay (location (items ! i)) (location newItem)))
       [0..<nat itemCount]"
proof -
  have "findPotentialMatches items itemCount newItem =
     fold (\<lambda>i results. if (\<not> (matched (items ! i) = 1 \<or> status (items ! i) = status newItem)
                 \<and> (overlapEitherWay (name (items ! i)) (name newItem)
                    \<or> overlapEitherWay (category (items ! i)) (category newItem)
                    \<or> overlapEitherWay (description (items ! i)) (description newItem)
                    \<or> overlapEitherWay (location (items ! i)) (location newItem)))
              then results @ [i] else results) [0..<nat itemCount] []"
    unfolding findPotentialMatches_def Let_def containsSubstring_iff overlapEitherWay_def
    by (rule arg_cong [where f = "\<lambda>f. fold f [0..<nat itemCount] []"]) (auto simp: fun_eq_iff)
  then show ?thesis by (simp only: fold_collect append_Nil)
qed

text \<open>
  Claim C4. In a non-empty store of well-formed records whose last live record is the
  newly added one, the candidate search returns, in increasing order, exactly the
  positions before the new record whose record is unmatched, has the opposite status to
  the new record, and overlaps with it on name, category, description or location: one
  of the two field texts contains the other ignoring case, that is, some stretch of it
  has the length of the other and the same letter at every position.
\<close>

theorem candidateSearch_exact:
  assumes pos: "0 < itemCount" and len: "nat itemCount \<le> length items"
    and valid: "\<forall>i. int i < itemCount \<longrightarrow> validItem (items ! i)"
  shows "sorted_wrt (<) (candidateSearch items itemCount)
       \<and> (\<forall>i. i \<in> set (candidateSearch items itemCount) \<longleftrightarrow>
              int i < itemCount - 1 \<and> isCandidate (items ! nat (itemCount - 1)) (items ! i))"
proof -
  let ?new = "items ! nat (itemCount - 1)"
  have vn: "validItem ?new" using valid pos by simp
  have srt: "sorted_wrt (<) (candidateSearch items itemCount)"
    unfolding candidateSearch_def findPotentialMatches_filter
    by (rule sorted_wrt_filter) (simp add: sorted_wrt_upt)
  have mem: "i \<in> set (candidateSearch items itemCount) \<longleftrightarrow>
              int i < itemCount - 1 \<and> isCandidate ?new (items ! i)" for i
  proof (cases "int i < itemCount - 1")
    case False
    then have "\<not> i < nat (itemCount - 1)" by linarith
    then show ?thesis using False
      by (simp add: candidateSearch_def findPotentialMatches_filter)
  next
    case True
    then have vi: "validItem (items ! i)" using valid by simp
    have inr: "i < nat (itemCount - 1)" using True by linarith
    have "(\<not> (matched (items ! i) = 1 \<or> status (items ! i) = status ?new))
           \<longleftrightarrow> (matched (items ! i) = 0 \<and> oppositeStatus (items ! i) ?new)"
      using vi vn by (auto simp: validItem_def oppositeStatus_def)
    then show ?thesis using True inr
      by (simp add: candidateSearch_def findPotentialMatches_filter isCandidate_def) blast
  qed
  show ?thesis using srt mem by blast
qed

text \<open>
  The theorem at the example store with the bunch of keys, the found wallet being the new
  record: the lost wallet at position 0, whose name \<open>Wallet\<close> differs from \<open>wallet\<close> in
  letter case only, is the one candidate; the lost keys at position 1, unmatched and of
  the opposite status but sharing no text with the found wallet, are not a candidate.
\<close>

theorem candidateSearch_exact_witness:
  "(0::int) < 3
   \<and> validItem wallet_lost \<and> validItem keys_lost \<and> validItem wallet_found
   \<and> candidateSearch [wallet_lost, keys_lost, wallet_found] 3 = [0]
   \<and> isCandidate wallet_found wallet_lost
   \<and> \<not> isCandidate wallet_found keys_lost
   \<and> matched keys_lost = 0 \<and> oppositeStatus keys_lost wallet_found"
proof -
  let ?xs = "[wallet_lost, keys_lost, wallet_found]"
  have v: "validItem wallet_lost" "validItem keys_lost" "validItem wallet_found"
    by code_simp+
  have k: "matched keys_lost = 0" "oppositeStatus keys_lost wallet_found" by code_simp+
  have h1: "(0::int) < 3" and h2: "nat 3 \<le> length ?xs" by simp_all
  have h3: "\<forall>i. int i < 3 \<longrightarrow> validItem (?xs ! i)"
  proof (intro allI impI)
    fix i :: nat assume "int i < 3"
    then have "i = 0 \<or> i = 1 \<or> i = 2" by linarith
    then show "validItem (?xs ! i)" using v by auto
  qed
  have run: "candidateSearch ?xs 3 = [0]" by code_simp
  note t = candidateSearch_exact [OF h1 h2 h3]
  from t have "0 \<in> set (candidateSearch ?xs 3) \<longleftrightarrow>
          int 0 < 3 - 1 \<and> isCandidate (?xs ! nat (3 - 1)) (?xs ! 0)"
    by blast
  then have c0: "isCandidate wallet_found wallet_lost" unfolding run by simp
  from t have "1 \<in> set (candidateSearch ?xs 3) \<longleftrightarrow>
          int 1 < 3 - 1 \<and> isCandidate (?xs ! nat (3 - 1)) (?xs ! 1)"
    by blast
  then have c1: "\<not> isCandidate wallet_found keys_lost" unfolding run by simp
  from h1 v run c0 c1 k show ?thesis by blast
qed

section \<open>Saving and loading\<close>

lemma length_encLE [simp]: "length (encLE k n) = k"
  by (induction k arbitrary: n) simp_all

lemma decLE_encLE: "decLE (encLE k n) = n mod 256 ^ k"
proof (induction k arbitrary: n)
  case 0
  then show ?case by simp
next
  case (Suc k)
  have "decLE (encLE (Suc k) n) = n mod 256 + 256 * ((n div 256) mod 256 ^ k)"
    by (simp add: Suc.IH)
  also have "\<dots> = n mod (256 * 256 ^ k)"
    by (simp add: mod_mult2_eq)
  finally show ?case by simp
qed

lemma readBytes_append: "length b = n \<Longrightarrow> readBytes n (b @ rest) = Some (b, rest)"
  by (simp add: readBytes_def)

lemma readInt_writeInt: "readInt (writeInt v @ rest) = Some (v, rest)"
proof -
  have "unat v < 4294967296" using unsigned_less [of v, where 'a = nat] by simp
  then have "word_of_nat (decLE (encLE 4 (unat v))) = v"
    by (simp add: decLE_encLE)
  then show ?thesis
    by (simp add: readInt_def writeInt_def readBytes_append)
qed

lemma readString_writeString:
  "length s < 2 ^ 64 \<Longrightarrow> readString (writeString s @ rest) = Some (s, rest)"
proof -
  assume "length s < 2 ^ 64"
  then have "decLE (encLE 8 (length s)) = length s"
    by (simp add: decLE_encLE)
  then show ?thesis
    by (simp add: readString_def readSize_def writeString_def writeSize_def readBytes_append)
qed

lemma readItem_writeItem:
  assumes "storable x"
  shows "readItem (writeItem x @ rest) = Some (x, rest)"
  using assms
  by (simp add: readItem_def writeItem_def storable_def readInt_writeInt
      readString_writeString readBytes_append)

lemma saveToFile_fold:
  "fold (\<lambda>i out. out @ writeItem (items ! i)) ps acc
     = acc @ concat (map (\<lambda>i. writeItem (items ! i)) ps)"
  by (induction ps arbitrary: acc) simp_all

lemma map_nth_upt_take:
  "n \<le> length xs \<Longrightarrow> map (\<lambda>i. f (xs ! i)) [0..<n] = map f (take n xs)"
  by (simp add: list_eq_iff_nth_eq)

lemma saveToFile_bytes:
  assumes "nat itemCount \<le> length items"
  shows "saveToFile True old items itemCount nextID
     = Some (writeInt nextID @ writeInt (word_of_int itemCount)
             @ concat (map writeItem (take (nat itemCount) items)))"
  using assms by (simp add: saveToFile_def saveToFile_fold map_nth_upt_take)

lemma loadLoop_records:
  assumes "\<forall>x \<in> set xs. storable x" "i + length xs \<le> length arr"
  shows "loadLoop i (length xs) (concat (map writeItem xs) @ rest) arr
           = Some (take i arr @ xs @ drop (i + length xs) arr)"
  using assms
proof (induction xs arbitrary: i arr)
  case Nil
  then show ?case by simp
next
  case (Cons x xs)
  have rd: "readItem (concat (map writeItem (x # xs)) @ rest)
              = Some (x, concat (map writeItem xs) @ rest)"
    using Cons.prems(1) readItem_writeItem [of x "concat (map writeItem xs) @ rest"] by simp
  have len: "Suc i + length xs \<le> length (arr[i := x])" using Cons.prems(2) by simp
  have "loadLoop i (length (x # xs)) (concat (map writeItem (x # xs)) @ rest) arr
          = loadLoop (Suc i) (length xs) (concat (map writeItem xs) @ rest) (arr[i := x])"
    using rd by simp
  also have "\<dots> = Some (take (Suc i) (arr[i := x]) @ xs @ drop (Suc i + length xs) (arr[i := x]))"
    using Cons.IH [OF _ len] Cons.prems(1) by simp
  also have "take (Suc i) (arr[i := x]) = take i arr @ [x]"
    using Cons.prems(2) by (simp add: take_Suc_conv_app_nth)
  also have "drop (Suc i + length xs) (arr[i := x]) = drop (i + length (x # xs)) arr"
    by simp
  finally show ?case by simp
qed

lemma le_mult_power2: "0 < (c::int) \<Longrightarrow> c \<le> c * 2 ^ k"
proof -
  assume c: "0 < c"
  have "(1::int) \<le> 2 ^ k" by (rule one_le_power) simp
  then have "c * 1 \<le> c * 2 ^ k" using c by (intro mult_left_mono) auto
  then show ?thesis by simp
qed

lemma growCapacity_reaches:
  "0 < c \<Longrightarrow> n \<le> c * 2 ^ k \<Longrightarrow> c * 2 ^ k \<le> 2147483647 \<Longrightarrow>
   \<exists>c'. growCapacity c n = Some (Inr c') \<and> n \<le> c' \<and> c \<le> c' \<and> c' \<le> c * 2 ^ k"
proof (induction k arbitrary: c)
  case 0
  then show ?case by (simp add: growCapacity.simps)
next
  case (Suc k)
  show ?case
  proof (cases "c < n")
    case False
    then show ?thesis
      using Suc.prems(1) le_mult_power2 [of c "Suc k"] by (simp add: growCapacity.simps)
  next
    case True
    have fits: "c * 2 \<le> 2147483647"
    proof -
      have a: "c * 2 \<le> c * 2 * 2 ^ k"
        by (rule le_mult_power2) (use Suc.prems(1) in simp)
      have b: "c * 2 * 2 ^ k = c * 2 ^ Suc k" by simp
      from a have "c * 2 \<le> c * 2 ^ Suc k" unfolding b .
      then show ?thesis using Suc.prems(3) by (rule order_trans)
    qed
    have "\<exists>c'. growCapacity (c * 2) n = Some (Inr c') \<and> n \<le> c' \<and> c * 2 \<le> c' \<and> c' \<le> c * 2 * 2 ^ k"
      using Suc.IH [of "c * 2"] Suc.prems by (simp add: mult.assoc)
    then obtain c' where c': "growCapacity (c * 2) n = Some (Inr c')" "n \<le> c'" "c * 2 \<le> c'"
        "c' \<le> c * 2 * 2 ^ k" by blast
    have "growCapacity c n = growCapacity (c * 2) n"
      using True fits Suc.prems(1) by (subst growCapacity.simps) simp
    then show ?thesis using c' Suc.prems(1) by (auto simp: mult.assoc)
  qed
qed

lemma sint_count: "0 \<le> n \<Longrightarrow> n \<le> 2147483647 \<Longrightarrow> sint (word_of_int n :: int32) = n"
  by (simp add: sint_sbintrunc' signed_take_bit_int_eq_self)

lemma readHeader_bytes:
  "readHeader (writeInt a @ writeInt b @ body) = Some (a, b, body)"
  by (simp add: readHeader_def readInt_writeInt)


lemma loadFromFile_wellformed:
  assumes recs: "\<forall>x \<in> set recs. storable x"
    and cnt: "sint v_itemCount = int (length recs)"
    and tl: "length (st_items st) = nat (st_capacity st)"
    and tc: "0 < st_capacity st"
    and room: "int (length recs) \<le> st_capacity st * 2 ^ k" "st_capacity st * 2 ^ k \<le> 2147483647"
  shows "\<exists>cap rest.
           loadFromFile (Some (writeInt v_nextID @ writeInt v_itemCount
                               @ concat (map writeItem recs) @ extra)) junk st
             = Some (Inr \<lparr>st_items = recs @ rest, st_itemCount = int (length recs),
                          st_capacity = cap, st_nextID = v_nextID\<rparr>)
           \<and> int (length recs) \<le> cap \<and> st_capacity st \<le> cap \<and> cap \<le> st_capacity st * 2 ^ k
           \<and> (int (length recs) \<le> st_capacity st \<longrightarrow> cap = st_capacity st)
           \<and> length (recs @ rest) = nat cap"
proof (cases "st_capacity st < int (length recs)")
  case False
  let ?arr = "st_items st"
  have fit: "0 + length recs \<le> length ?arr" using False tl by linarith
  have ll: "loadLoop 0 (nat (int (length recs))) (concat (map writeItem recs) @ extra) ?arr
              = Some (recs @ drop (length recs) ?arr)"
    using loadLoop_records [OF recs fit, of extra] by simp
  have "loadFromFile (Some (writeInt v_nextID @ writeInt v_itemCount
                               @ concat (map writeItem recs) @ extra)) junk st
          = Some (Inr \<lparr>st_items = recs @ drop (length recs) ?arr, st_itemCount = int (length recs),
                          st_capacity = st_capacity st, st_nextID = v_nextID\<rparr>)"
    using False ll by (simp add: loadFromFile_def readHeader_bytes cnt Let_def)
  moreover have "length (recs @ drop (length recs) ?arr) = nat (st_capacity st)"
    using fit tl by simp
  ultimately show ?thesis
    using False tc le_mult_power2 [OF tc, of k] by (intro exI [of _ "st_capacity st"] exI [of _ "drop (length recs) ?arr"]) simp
next
  case True
  obtain cap where cap: "growCapacity (st_capacity st) (int (length recs)) = Some (Inr cap)"
      "int (length recs) \<le> cap" "st_capacity st \<le> cap" "cap \<le> st_capacity st * 2 ^ k"
    using growCapacity_reaches [OF tc room] by blast
  let ?arr = "replicate (nat cap) junk"
  have fit: "0 + length recs \<le> length ?arr" using cap(2) by simp
  have ll: "loadLoop 0 (nat (int (length recs))) (concat (map writeItem recs) @ extra) ?arr
              = Some (recs @ drop (length recs) ?arr)"
    using loadLoop_records [OF recs fit, of extra] by simp
  have "loadFromFile (Some (writeInt v_nextID @ writeInt v_itemCount
                               @ concat (map writeItem recs) @ extra)) junk st
          = Some (Inr \<lparr>st_items = recs @ drop (length recs) ?arr, st_itemCount = int (length recs),
                          st_capacity = cap, st_nextID = v_nextID\<rparr>)"
    using True ll cap(1) by (simp add: loadFromFile_def readHeader_bytes cnt Let_def)
  moreover have "length (recs @ drop (length recs) ?arr) = nat cap"
    using fit by simp
  ultimately show ?thesis
    using True cap by (intro exI [of _ cap] exI [of _ "drop (length recs) ?arr"]) simp
qed

lemma save_load_general:
  assumes cnt: "0 \<le> itemCount" and len: "nat itemCount \<le> length items"
    and ok: "\<forall>i. int i < itemCount \<longrightarrow> storable (items ! i)"
    and tl: "length (st_items st) = nat (st_capacity st)" and tc: "0 < st_capacity st"
    and room: "itemCount \<le> st_capacity st * 2 ^ k" "st_capacity st * 2 ^ k \<le> 2147483647"
  shows "\<exists>st'. loadFromFile (saveToFile True old items itemCount nextID) junk st = Some (Inr st')
           \<and> st_itemCount st' = itemCount \<and> st_nextID st' = nextID
           \<and> take (nat itemCount) (st_items st') = take (nat itemCount) items
           \<and> itemCount \<le> st_capacity st' \<and> length (st_items st') = nat (st_capacity st')
           \<and> st_capacity st \<le> st_capacity st'"
proof -
  let ?recs = "take (nat itemCount) items"
  have lr: "int (length ?recs) = itemCount" using cnt len by simp
  have recs: "\<forall>x \<in> set ?recs. storable x"
  proof
    fix x assume "x \<in> set ?recs"
    then obtain i where i: "i < length ?recs" "x = ?recs ! i" by (auto simp: in_set_conv_nth)
    then have "int i < itemCount" using lr by linarith
    then show "storable x" using ok i by simp
  qed
  have sc: "sint (word_of_int itemCount :: int32) = int (length ?recs)"
    using sint_count [of itemCount] cnt room lr by simp
  have r1: "int (length ?recs) \<le> st_capacity st * 2 ^ k" using room lr by simp
  obtain cap rest where
    ld: "loadFromFile (Some (writeInt nextID @ writeInt (word_of_int itemCount)
                               @ concat (map writeItem ?recs) @ [])) junk st
           = Some (Inr \<lparr>st_items = ?recs @ rest, st_itemCount = int (length ?recs),
                        st_capacity = cap, st_nextID = nextID\<rparr>)"
    and cp: "int (length ?recs) \<le> cap" "length (?recs @ rest) = nat cap" "st_capacity st \<le> cap"
    using loadFromFile_wellformed [OF recs sc tl tc r1 room(2), of nextID "[]" junk] by blast
  have sv: "saveToFile True old items itemCount nextID
     = Some (writeInt nextID @ writeInt (word_of_int itemCount) @ concat (map writeItem ?recs) @ [])"
    using saveToFile_bytes [OF len] by simp
  have tk: "take (nat itemCount) (?recs @ rest) = ?recs" using cnt len by simp
  show ?thesis
    unfolding sv ld using lr cp tk by simp
qed

text \<open>
  Claim C1. Take a store with a non-negative record count that its array can hold, whose
  live records the format can hold (12 date bytes, string lengths that fit the prefix),
  and any counter. Write it with \<^verbatim>\<open>saveToFile\<close> (the file opens) and read the file with
  \<^verbatim>\<open>loadFromFile\<close> into a store whose capacity is positive and reaches the record count
  by doubling inside the \<^verbatim>\<open>int\<close> range. The load returns a store with the same record
  count, the same counter and, position by position, the same live records.
\<close>

theorem save_load_roundtrip:
  assumes cnt: "0 \<le> itemCount" and len: "nat itemCount \<le> length items"
    and ok: "\<forall>i. int i < itemCount \<longrightarrow> storable (items ! i)"
    and tl: "length (st_items st) = nat (st_capacity st)" and tc: "0 < st_capacity st"
    and room: "itemCount \<le> st_capacity st * 2 ^ k" "st_capacity st * 2 ^ k \<le> 2147483647"
  shows "\<exists>st'. loadFromFile (saveToFile True old items itemCount nextID) junk st = Some (Inr st')
           \<and> st_itemCount st' = itemCount \<and> st_nextID st' = nextID
           \<and> take (nat itemCount) (st_items st') = take (nat itemCount) items
           \<and> itemCount \<le> st_capacity st' \<and> length (st_items st') = nat (st_capacity st')"
proof -
  from save_load_general [OF assms, of old nextID junk]
  obtain st' where
    "loadFromFile (saveToFile True old items itemCount nextID) junk st = Some (Inr st')"
    and "st_itemCount st' = itemCount" and "st_nextID st' = nextID"
    and "take (nat itemCount) (st_items st') = take (nat itemCount) items"
    and "itemCount \<le> st_capacity st'" and "length (st_items st') = nat (st_capacity st')"
    by blast
  then show ?thesis by blast
qed



text \<open>The round trip at the example store, read into the variables of a fresh start.\<close>

theorem save_load_roundtrip_witness:
  "storable wallet_lost \<and> storable wallet_found
   \<and> (\<exists>st'. loadFromFile (saveToFile True None [wallet_lost, wallet_found] 2 102) wallet_found
                (initialStore wallet_found) = Some (Inr st')
            \<and> st_itemCount st' = 2 \<and> st_nextID st' = 102
            \<and> take 2 (st_items st') = [wallet_lost, wallet_found])"
proof -
  let ?xs = "[wallet_lost, wallet_found]"
  let ?st = "initialStore wallet_found"
  have s: "storable wallet_lost" "storable wallet_found"
    by (simp_all add: storable_def wallet_lost_def wallet_found_def)
  have h1: "(0::int) \<le> 2" and h2: "nat 2 \<le> length ?xs" by simp_all
  have h3: "\<forall>i. int i < 2 \<longrightarrow> storable (?xs ! i)"
  proof (intro allI impI)
    fix i :: nat assume "int i < 2"
    then have "i = 0 \<or> i = 1" by linarith
    then show "storable (?xs ! i)" using s by auto
  qed
  have h4: "length (st_items ?st) = nat (st_capacity ?st)" by (simp add: initialStore_def)
  have h5: "0 < st_capacity ?st" by (simp add: initialStore_def)
  have h6: "2 \<le> st_capacity ?st * 2 ^ 0" and h7: "st_capacity ?st * 2 ^ 0 \<le> 2147483647"
    by (simp_all add: initialStore_def)
  from save_load_roundtrip [OF h1 h2 h3 h4 h5 h6 h7, of None 102 wallet_found]
  have "\<exists>st'. loadFromFile (saveToFile True None ?xs 2 102) wallet_found ?st = Some (Inr st')
            \<and> st_itemCount st' = 2 \<and> st_nextID st' = 102
            \<and> take 2 (st_items st') = ?xs"
    by simp blast
  then show ?thesis using s by blast
qed


section \<open>The sort functions\<close>

lemma swapItems_length [simp]: "length (swapItems xs a b) = length xs"
  by (simp add: swapItems_def Let_def)

lemma swapItems_nth:
  "a < length xs \<Longrightarrow> b < length xs \<Longrightarrow>
   swapItems xs a b ! k = (if k = b then xs ! a else if k = a then xs ! b else xs ! k)"
  by (simp add: swapItems_def Let_def nth_list_update)

lemma swapItems_mset:
  "a < length ys \<Longrightarrow> b < length ys \<Longrightarrow> mset (swapItems ys a b) = mset ys"
  unfolding swapItems_def Let_def by (rule mset_swap)

lemma swapItems_take:
  "b < n \<Longrightarrow> a < n \<Longrightarrow> take n (swapItems xs a b) = swapItems (take n xs) a b"
  by (simp add: swapItems_def Let_def take_update_swap)

lemma swapItems_drop:
  "b < n \<Longrightarrow> a < n \<Longrightarrow> drop n (swapItems xs a b) = drop n xs"
  by (simp add: swapItems_def Let_def)

lemma swapItems_append:
  "swapItems (A @ a # b # C) (length A) (Suc (length A)) = A @ b # a # C"
  by (simp add: swapItems_def Let_def list_update_append nth_append)

lemma adjacent_split:
  assumes "Suc j < length xs"
  shows "xs = take j xs @ xs ! j # xs ! Suc j # drop (Suc (Suc j)) xs"
proof -
  have "drop j xs = xs ! j # drop (Suc j) xs"
    using assms by (simp add: Cons_nth_drop_Suc)
  moreover have "drop (Suc j) xs = xs ! Suc j # drop (Suc (Suc j)) xs"
    using assms by (simp add: Cons_nth_drop_Suc)
  ultimately have "drop j xs = xs ! j # xs ! Suc j # drop (Suc (Suc j)) xs" by simp
  then show ?thesis by (metis append_take_drop_id)
qed

lemma swapItems_adjacent:
  assumes "Suc j < length xs"
  shows "swapItems xs j (Suc j) = take j xs @ xs ! Suc j # xs ! j # drop (Suc (Suc j)) xs"
proof -
  have "swapItems (take j xs @ xs ! j # xs ! Suc j # drop (Suc (Suc j)) xs)
          (length (take j xs)) (Suc (length (take j xs)))
        = take j xs @ xs ! Suc j # xs ! j # drop (Suc (Suc j)) xs"
    by (rule swapItems_append)
  moreover have "length (take j xs) = j" using assms by simp
  ultimately have "swapItems (take j xs @ xs ! j # xs ! Suc j # drop (Suc (Suc j)) xs) j (Suc j)
        = take j xs @ xs ! Suc j # xs ! j # drop (Suc (Suc j)) xs"
    by simp
  then show ?thesis by (simp only: adjacent_split [OF assms, symmetric])
qed

lemma swapItems_filter:
  assumes "Suc j < length t" "\<not> (Q (t ! j) \<and> Q (t ! Suc j))"
  shows "filter Q (swapItems t j (Suc j)) = filter Q t"
proof -
  have "filter Q (swapItems t j (Suc j))
          = filter Q (take j t) @ filter Q [t ! Suc j, t ! j] @ filter Q (drop (Suc (Suc j)) t)"
    by (subst swapItems_adjacent [OF assms(1)]) simp
  also have "filter Q [t ! Suc j, t ! j] = filter Q [t ! j, t ! Suc j]"
    using assms(2) by auto
  also have "filter Q (take j t) @ filter Q [t ! j, t ! Suc j] @ filter Q (drop (Suc (Suc j)) t)
               = filter Q (take j t @ t ! j # t ! Suc j # drop (Suc (Suc j)) t)"
    by simp
  also have "\<dots> = filter Q t"
    by (rule arg_cong [where f = "filter Q"]) (rule adjacent_split [OF assms(1), symmetric])
  finally show ?thesis .
qed

lemma bubbleStep_Suc:
  "bubbleStep swapNeeded j xs =
     (if swapNeeded (xs ! j) (xs ! Suc j) then swapItems xs j (Suc j) else xs)"
  by (simp add: bubbleStep_def)

text \<open>What every step keeps: length, the slots from n on, the multiset and each key class.\<close>

lemma bubbleStep_keeps:
  assumes j: "Suc j < n" and n: "n \<le> length xs"
    and cls: "\<And>a b. swapNeeded a b \<Longrightarrow> \<not> (Q a \<and> Q b)"
  shows "length (bubbleStep swapNeeded j xs) = length xs"
    and "drop n (bubbleStep swapNeeded j xs) = drop n xs"
    and "mset (take n (bubbleStep swapNeeded j xs)) = mset (take n xs)"
    and "filter Q (take n (bubbleStep swapNeeded j xs)) = filter Q (take n xs)"
proof -
  have jn: "j < n" using j by simp
  have jt: "Suc j < length (take n xs)" using j n by simp
  show "length (bubbleStep swapNeeded j xs) = length xs" by (simp add: bubbleStep_Suc)
  show "drop n (bubbleStep swapNeeded j xs) = drop n xs"
    by (simp add: bubbleStep_Suc swapItems_drop [OF j jn])
  show "mset (take n (bubbleStep swapNeeded j xs)) = mset (take n xs)"
    using jt by (simp add: bubbleStep_Suc swapItems_take [OF j jn] swapItems_mset)
  show "filter Q (take n (bubbleStep swapNeeded j xs)) = filter Q (take n xs)"
  proof (cases "swapNeeded (xs ! j) (xs ! Suc j)")
    case False
    then show ?thesis by (simp add: bubbleStep_Suc)
  next
    case True
    have "\<not> (Q (take n xs ! j) \<and> Q (take n xs ! Suc j))" using cls [OF True] j by simp
    then show ?thesis
      using True by (simp add: bubbleStep_Suc swapItems_take [OF j jn] swapItems_filter [OF jt])
  qed
qed

lemma pass_keeps:
  assumes "\<forall>j \<in> set js. Suc j < n" and "n \<le> length xs"
    and cls: "\<And>a b. swapNeeded a b \<Longrightarrow> \<not> (Q a \<and> Q b)"
  shows "length (fold (bubbleStep swapNeeded) js xs) = length xs
       \<and> drop n (fold (bubbleStep swapNeeded) js xs) = drop n xs
       \<and> mset (take n (fold (bubbleStep swapNeeded) js xs)) = mset (take n xs)
       \<and> filter Q (take n (fold (bubbleStep swapNeeded) js xs)) = filter Q (take n xs)"
  using assms(1,2)
proof (induction js arbitrary: xs)
  case Nil
  then show ?case by simp
next
  case (Cons j js)
  have j: "Suc j < n" using Cons.prems(1) by simp
  note k = bubbleStep_keeps [OF j Cons.prems(2), of swapNeeded Q, OF cls]
  have "n \<le> length (bubbleStep swapNeeded j xs)" using k(1) Cons.prems(2) by simp
  then show ?case using Cons.IH [of "bubbleStep swapNeeded j xs"] Cons.prems(1) k by simp
qed

lemma loops_keeps:
  assumes "\<forall>i \<in> set ps. \<forall>j \<in> set (f i). Suc j < n" and "n \<le> length xs"
    and cls: "\<And>a b. swapNeeded a b \<Longrightarrow> \<not> (Q a \<and> Q b)"
  shows "length (fold (\<lambda>i xs. fold (bubbleStep swapNeeded) (f i) xs) ps xs) = length xs
       \<and> drop n (fold (\<lambda>i xs. fold (bubbleStep swapNeeded) (f i) xs) ps xs) = drop n xs
       \<and> mset (take n (fold (\<lambda>i xs. fold (bubbleStep swapNeeded) (f i) xs) ps xs)) = mset (take n xs)
       \<and> filter Q (take n (fold (\<lambda>i xs. fold (bubbleStep swapNeeded) (f i) xs) ps xs))
           = filter Q (take n xs)"
  using assms(1,2)
proof (induction ps arbitrary: xs)
  case Nil
  then show ?case by simp
next
  case (Cons i ps)
  have inner: "\<forall>j \<in> set (f i). Suc j < n" using Cons.prems(1) by simp
  note k = pass_keeps [OF inner Cons.prems(2), of swapNeeded Q, OF cls]
  have "n \<le> length (fold (bubbleStep swapNeeded) (f i) xs)" using k Cons.prems(2) by simp
  then show ?case
    using Cons.IH [of "fold (bubbleStep swapNeeded) (f i) xs"] Cons.prems(1) k by simp
qed

lemma bubbleLoops_nat:
  "bubbleLoops swapNeeded items itemCount =
     fold (\<lambda>i xs. fold (bubbleStep swapNeeded) [0..<nat itemCount - i - 1] xs)
       [0..<nat itemCount - 1] items"
proof -
  have a: "\<And>i. nat (itemCount - int i - 1) = nat itemCount - i - 1" by linarith
  have b: "nat (itemCount - 1) = nat itemCount - 1" by linarith
  show ?thesis by (simp add: bubbleLoops_def a b)
qed

lemma bubbleLoops_keeps:
  assumes "nat itemCount \<le> length items"
    and cls: "\<And>a b. swapNeeded a b \<Longrightarrow> \<not> (Q a \<and> Q b)"
  shows "length (bubbleLoops swapNeeded items itemCount) = length items"
    and "drop (nat itemCount) (bubbleLoops swapNeeded items itemCount) = drop (nat itemCount) items"
    and "mset (take (nat itemCount) (bubbleLoops swapNeeded items itemCount))
           = mset (take (nat itemCount) items)"
    and "filter Q (take (nat itemCount) (bubbleLoops swapNeeded items itemCount))
           = filter Q (take (nat itemCount) items)"
proof -
  have idx: "\<forall>i \<in> set [0..<nat itemCount - 1].
               \<forall>j \<in> set [0..<nat itemCount - i - 1]. Suc j < nat itemCount"
    by auto
  note k = loops_keeps [OF idx assms(1), of swapNeeded Q, OF cls]
  show "length (bubbleLoops swapNeeded items itemCount) = length items"
    and "drop (nat itemCount) (bubbleLoops swapNeeded items itemCount) = drop (nat itemCount) items"
    and "mset (take (nat itemCount) (bubbleLoops swapNeeded items itemCount))
           = mset (take (nat itemCount) items)"
    and "filter Q (take (nat itemCount) (bubbleLoops swapNeeded items itemCount))
           = filter Q (take (nat itemCount) items)"
    unfolding bubbleLoops_nat using k by blast+
qed

text \<open>One inner pass over the positions below m leaves a greatest record at m.\<close>

lemma swo_refl: "strictWeakOrder g \<Longrightarrow> \<not> g a a"
  by (simp add: strictWeakOrder_def)

lemma swo_asym: "strictWeakOrder g \<Longrightarrow> g a b \<Longrightarrow> \<not> g b a"
  unfolding strictWeakOrder_def by blast

lemma swo_ntrans: "strictWeakOrder g \<Longrightarrow> \<not> g a b \<Longrightarrow> \<not> g b c \<Longrightarrow> \<not> g a c"
  unfolding strictWeakOrder_def by blast

lemma pass_max:
  assumes swo: "strictWeakOrder swapNeeded"
  shows "m < length xs \<Longrightarrow>
         (\<forall>a \<le> m. \<not> swapNeeded (fold (bubbleStep swapNeeded) [0..<m] xs ! a)
                                 (fold (bubbleStep swapNeeded) [0..<m] xs ! m))"
proof (induction m)
  case 0
  then show ?case by (simp add: swo_refl [OF swo])
next
  case (Suc m)
  note refl = swo_refl [OF swo] and asym = swo_asym [OF swo] and ntrans = swo_ntrans [OF swo]
  let ?zs = "fold (bubbleStep swapNeeded) [0..<m] xs"
  let ?ys = "fold (bubbleStep swapNeeded) [0..<Suc m] xs"
  have ys: "?ys = bubbleStep swapNeeded m ?zs" by simp
  have idx: "\<forall>j \<in> set [0..<m]. Suc j < Suc m" by simp
  have lz: "length ?zs = length xs"
    using pass_keeps [OF idx, of xs swapNeeded "\<lambda>x. False"] Suc.prems by simp
  have ih: "\<forall>a \<le> m. \<not> swapNeeded (?zs ! a) (?zs ! m)" using Suc.IH Suc.prems by simp
  have ml: "m < length ?zs" "Suc m < length ?zs" using lz Suc.prems by simp_all
  show ?case
  proof (cases "swapNeeded (?zs ! m) (?zs ! Suc m)")
    case True
    then have sw: "?ys = swapItems ?zs m (Suc m)" by (simp only: ys bubbleStep_Suc if_True)
    show ?thesis
    proof (intro allI impI)
      fix a assume a: "a \<le> Suc m"
      have top: "?ys ! Suc m = ?zs ! m" using ml by (simp only: sw swapItems_nth) simp
      consider "a < m" | "a = m" | "a = Suc m" using a by linarith
      then show "\<not> swapNeeded (?ys ! a) (?ys ! Suc m)"
      proof cases
        case 1
        then have "?ys ! a = ?zs ! a" using ml by (simp only: sw swapItems_nth) simp
        then show ?thesis using top ih 1 by simp
      next
        case 2
        then have "?ys ! a = ?zs ! Suc m" using ml by (simp only: sw swapItems_nth) simp
        then show ?thesis using top asym [OF True] by simp
      next
        case 3
        then show ?thesis using refl by simp
      qed
    qed
  next
    case False
    then have same: "?ys = ?zs" by (simp only: ys bubbleStep_Suc if_False)
    show ?thesis
    proof (intro allI impI)
      fix a assume a: "a \<le> Suc m"
      consider "a \<le> m" | "a = Suc m" using a by linarith
      then show "\<not> swapNeeded (?ys ! a) (?ys ! Suc m)"
      proof cases
        case 1
        then have "\<not> swapNeeded (?zs ! a) (?zs ! m)" using ih by simp
        then have "\<not> swapNeeded (?zs ! a) (?zs ! Suc m)" using False by (rule ntrans)
        then show ?thesis unfolding same .
      next
        case 2
        then show ?thesis using refl by simp
      qed
    qed
  qed
qed

lemma drop_eq_nth:
  assumes "drop k ys = drop k zs" "length ys = length zs" "k \<le> b" "b < length zs"
  shows "ys ! b = zs ! b"
proof -
  have kb: "k + (b - k) = b" using assms(3) by simp
  have "ys ! b = ys ! (k + (b - k))" by (simp only: kb)
  also have "\<dots> = drop k ys ! (b - k)" using assms by (intro nth_drop [symmetric]) simp
  also have "\<dots> = drop k zs ! (b - k)" by (simp only: assms(1))
  also have "\<dots> = zs ! (k + (b - k))" using assms by (intro nth_drop) simp
  also have "\<dots> = zs ! b" by (simp only: kb)
  finally show ?thesis .
qed

text \<open>
  After i rounds of the outer loop every record in the last i live positions is in order
  with every record before it.
\<close>

lemma rounds_sorted:
  assumes swo: "strictWeakOrder swapNeeded"
    and n: "n \<le> length xs"
  shows "i \<le> n - 1 \<Longrightarrow>
         (\<forall>a b. a < b \<and> n - i \<le> b \<and> b < n \<longrightarrow>
            \<not> swapNeeded
               (fold (\<lambda>i xs. fold (bubbleStep swapNeeded) [0..<n - i - 1] xs) [0..<i] xs ! a)
               (fold (\<lambda>i xs. fold (bubbleStep swapNeeded) [0..<n - i - 1] xs) [0..<i] xs ! b))"
proof (induction i)
  case 0
  then show ?case by auto
next
  case (Suc i)
  let ?zs = "fold (\<lambda>i xs. fold (bubbleStep swapNeeded) [0..<n - i - 1] xs) [0..<i] xs"
  let ?m = "n - i - 1"
  let ?ys = "fold (bubbleStep swapNeeded) [0..<?m] ?zs"
  have ys: "fold (\<lambda>i xs. fold (bubbleStep swapNeeded) [0..<n - i - 1] xs) [0..<Suc i] xs = ?ys"
    by simp
  have i: "i < n - 1" using Suc.prems by simp
  have idx: "\<forall>i \<in> set [0..<i]. \<forall>j \<in> set [0..<n - i - 1]. Suc j < n" by auto
  have lz: "length ?zs = length xs"
    using loops_keeps [OF idx n, of swapNeeded "\<lambda>x. False"] by simp
  have ml: "?m < length ?zs" using lz n i by linarith
  have ih: "\<forall>a b. a < b \<and> n - i \<le> b \<and> b < n \<longrightarrow> \<not> swapNeeded (?zs ! a) (?zs ! b)"
    using Suc.IH i by simp
  have top: "\<forall>a \<le> ?m. \<not> swapNeeded (?ys ! a) (?ys ! ?m)"
    using pass_max [OF swo ml] by blast
  have idx2: "\<forall>j \<in> set [0..<?m]. Suc j < Suc ?m" by simp
  have sm: "Suc ?m \<le> length ?zs" using ml by simp
  have k: "length ?ys = length ?zs \<and> drop (Suc ?m) ?ys = drop (Suc ?m) ?zs
           \<and> mset (take (Suc ?m) ?ys) = mset (take (Suc ?m) ?zs)"
    using pass_keeps [OF idx2 sm, of swapNeeded "\<lambda>x. False"] by blast
  have ly: "length ?ys = length ?zs" using k by (rule conjunct1)
  have kd: "drop (Suc ?m) ?ys = drop (Suc ?m) ?zs" using k by blast
  have km: "mset (take (Suc ?m) ?ys) = mset (take (Suc ?m) ?zs)" using k by blast
  have above: "?ys ! b = ?zs ! b" if "?m < b" "b < n" for b
  proof -
    have "Suc ?m \<le> b" using that(1) by simp
    moreover have "b < length ?zs" using that(2) lz n by linarith
    ultimately show ?thesis using kd ly by (intro drop_eq_nth [of "Suc ?m"])
  qed
  have below: "\<exists>a' \<le> ?m. ?ys ! a = ?zs ! a'" if "a \<le> ?m" for a
  proof -
    have la: "a < length (take (Suc ?m) ?ys)" using that sm ly by simp
    then have "take (Suc ?m) ?ys ! a \<in> set (take (Suc ?m) ?ys)" by (rule nth_mem)
    moreover have "take (Suc ?m) ?ys ! a = ?ys ! a" using that by simp
    moreover have "set (take (Suc ?m) ?ys) = set (take (Suc ?m) ?zs)"
      using km by (rule mset_eq_setD)
    ultimately have "?ys ! a \<in> set (take (Suc ?m) ?zs)" by simp
    then obtain a' where a': "a' < length (take (Suc ?m) ?zs)" "take (Suc ?m) ?zs ! a' = ?ys ! a"
      unfolding in_set_conv_nth by blast
    have "a' \<le> ?m" using a'(1) by simp
    moreover have "?ys ! a = ?zs ! a'" using a' by simp
    ultimately show ?thesis by blast
  qed
  have goal: "\<not> swapNeeded (?ys ! a) (?ys ! b)" if ab: "a < b" "n - Suc i \<le> b" "b < n" for a b
  proof (cases "b = ?m")
    case True
    have "a \<le> ?m" using ab(1) True by simp
    then have "\<not> swapNeeded (?ys ! a) (?ys ! ?m)" using top by blast
    then show ?thesis unfolding True .
  next
    case False
    then have bm: "?m < b" using ab(2) by simp
    then have bi: "n - i \<le> b" by linarith
    have yb: "?ys ! b = ?zs ! b" using above [OF bm ab(3)] .
    show ?thesis
    proof (cases "a \<le> ?m")
      case True
      then obtain a' where a': "a' \<le> ?m" "?ys ! a = ?zs ! a'" using below by blast
      then have "a' < b" using bm by linarith
      then have "\<not> swapNeeded (?zs ! a') (?zs ! b)" using ih bi ab(3) by blast
      then show ?thesis unfolding a'(2) yb .
    next
      case False
      then have am: "?m < a" by simp
      have "a < n" using ab(1,3) by simp
      then have ya: "?ys ! a = ?zs ! a" using above [OF am] by simp
      have "\<not> swapNeeded (?zs ! a) (?zs ! b)" using ih ab(1,3) bi by blast
      then show ?thesis unfolding ya yb .
    qed
  qed
  show ?case unfolding ys using goal by blast
qed

lemma bubbleLoops_sorted:
  assumes swo: "strictWeakOrder swapNeeded"
    and n: "nat itemCount \<le> length items"
  shows "sorted_wrt (\<lambda>a b. \<not> swapNeeded a b)
           (take (nat itemCount) (bubbleLoops swapNeeded items itemCount))"
proof -
  let ?n = "nat itemCount"
  let ?ys = "bubbleLoops swapNeeded items itemCount"
  have all: "\<forall>a b. a < b \<and> ?n - (?n - 1) \<le> b \<and> b < ?n \<longrightarrow> \<not> swapNeeded (?ys ! a) (?ys ! b)"
    unfolding bubbleLoops_nat using rounds_sorted [OF swo n, of "?n - 1"] by simp
  have "\<not> swapNeeded (take ?n ?ys ! a) (take ?n ?ys ! b)"
    if "a < b" "b < length (take ?n ?ys)" for a b
  proof -
    have b: "b < ?n" using that(2) by simp
    then have "?n - (?n - 1) \<le> b" using that(1) by linarith
    then show ?thesis using all that(1) b by simp
  qed
  then show ?thesis by (simp only: sorted_wrt_iff_nth_less) blast
qed

lemma strcmp_pos: "0 < strcmp x y \<longleftrightarrow> cstr y < cstr x"
  by (auto simp: strcmp_def)

lemma strcmp_neg: "strcmp x y < 0 \<longleftrightarrow> cstr x < cstr y"
  by (auto simp: strcmp_def)

lemma performSort_bubbleLoops:
  "performSort choice flag items itemCount
     = bubbleLoops (\<lambda>a b. \<not> inOrder choice flag a b) items itemCount"
  by (cases choice; cases flag)
     (simp_all add: performSort_def inOrder_def sortByID_def sortByName_def sortByCategory_def
        sortByDate_def sortByStatus_def strcmp_pos strcmp_neg not_le)

lemma swo_key:
  fixes k :: "Item \<Rightarrow> 'k::linorder"
  shows "strictWeakOrder (\<lambda>a b. \<not> k a \<le> k b)" and "strictWeakOrder (\<lambda>a b. \<not> k b \<le> k a)"
  by (auto simp: strictWeakOrder_def)

lemma swo_inOrder: "strictWeakOrder (\<lambda>a b. \<not> inOrder choice flag a b)"
  by (cases choice; cases flag) (simp_all add: inOrder_def swo_key)

lemma inOrder_same_key:
  "\<not> inOrder choice flag a b \<Longrightarrow> \<not> (sortKeyOf choice a = v \<and> sortKeyOf choice b = v)"
  by (cases choice; cases flag) (auto simp: inOrder_def sortKeyOf_def)

lemma sortByID_canonical:
  assumes n: "nat itemCount \<le> length xs"
    and d: "distinct (map itemID (take (nat itemCount) xs))"
  shows "take (nat itemCount) (sortByID xs itemCount True)
           = sort_key (\<lambda>x. sint (itemID x)) (take (nat itemCount) xs)"
proof -
  let ?f = "\<lambda>x. sint (itemID x)"
  let ?A = "take (nat itemCount) xs"
  let ?R = "take (nat itemCount) (sortByID xs itemCount True)"
  have sb: "sortByID xs itemCount True = bubbleLoops (\<lambda>a b. \<not> inOrder ByID True a b) xs itemCount"
    using performSort_bubbleLoops [of ByID True xs itemCount] by (simp add: performSort_def)
  have ms: "mset ?A = mset ?R"
    unfolding sb using bubbleLoops_keeps(3) [OF n, of "\<lambda>a b. \<not> inOrder ByID True a b" "\<lambda>x. False"]
    by simp
  have "sorted_wrt (\<lambda>a b. \<not> \<not> inOrder ByID True a b) ?R"
    unfolding sb by (rule bubbleLoops_sorted [OF swo_inOrder n])
  then have srt: "sorted (map ?f ?R)" by (simp add: inOrder_def sorted_map)
  have "inj_on itemID (set ?A)" using d by (simp add: distinct_map)
  then have inj: "inj_on ?f (set ?A)"
    unfolding inj_on_def by (metis signed_word_eqI)
  show ?thesis using sort_key_inj_key_eq [OF ms inj srt] by simp
qed

text \<open>
  Claim C6. For every sort choice (id, name, category, date, status) and either value of
  its flag, on a store whose array holds its live records: the records of every key value
  keep their relative order (the subsequence of the live records with that key is the same
  before and after), the live records come out in order for the choice and the flag, as a
  rearrangement of the live records, with the rest of the array untouched; the sort is
  the two loops whose step swaps two neighbours exactly when they are not in order, and
  two records that are not in order have different keys; and when the ids
  of the live records are pairwise different, a sort by id ascending after it gives the
  one list of the live records in increasing id, the same as without the earlier sort.
\<close>

theorem sort_stable_canonical:
  assumes n: "nat itemCount \<le> length items"
  shows "(\<forall>v. filter (\<lambda>x. sortKeyOf choice x = v)
                 (take (nat itemCount) (performSort choice flag items itemCount))
             = filter (\<lambda>x. sortKeyOf choice x = v) (take (nat itemCount) items))
       \<and> sorted_wrt (inOrder choice flag)
            (take (nat itemCount) (performSort choice flag items itemCount))
       \<and> mset (take (nat itemCount) (performSort choice flag items itemCount))
            = mset (take (nat itemCount) items)
       \<and> drop (nat itemCount) (performSort choice flag items itemCount)
            = drop (nat itemCount) items
       \<and> length (performSort choice flag items itemCount) = length items
       \<and> performSort choice flag items itemCount
            = bubbleLoops (\<lambda>a b. \<not> inOrder choice flag a b) items itemCount
       \<and> (\<forall>a b. \<not> inOrder choice flag a b \<longrightarrow> sortKeyOf choice a \<noteq> sortKeyOf choice b)
       \<and> (distinct (map itemID (take (nat itemCount) items)) \<longrightarrow>
            take (nat itemCount)
              (sortByID (performSort choice flag items itemCount) itemCount True)
              = sort_key (\<lambda>x. sint (itemID x)) (take (nat itemCount) items)
            \<and> take (nat itemCount)
                (sortByID (performSort choice flag items itemCount) itemCount True)
              = take (nat itemCount) (sortByID items itemCount True))"
proof -
  let ?g = "\<lambda>a b. \<not> inOrder choice flag a b"
  let ?R = "performSort choice flag items itemCount"
  let ?A = "take (nat itemCount) items"
  let ?B = "take (nat itemCount) ?R"
  let ?f = "\<lambda>x. sint (itemID x)"
  have R: "?R = bubbleLoops ?g items itemCount" by (rule performSort_bubbleLoops)
  have stab: "filter (\<lambda>x. sortKeyOf choice x = v) ?B = filter (\<lambda>x. sortKeyOf choice x = v) ?A" for v
    unfolding R
    by (rule bubbleLoops_keeps(4) [OF n]) (rule inOrder_same_key)
  have len: "length ?R = length items"
    unfolding R using bubbleLoops_keeps(1) [OF n, of ?g "\<lambda>x. False"] by simp
  have drp: "drop (nat itemCount) ?R = drop (nat itemCount) items"
    unfolding R using bubbleLoops_keeps(2) [OF n, of ?g "\<lambda>x. False"] by simp
  have ms: "mset ?B = mset ?A"
    unfolding R using bubbleLoops_keeps(3) [OF n, of ?g "\<lambda>x. False"] by simp
  have "sorted_wrt (\<lambda>a b. \<not> ?g a b) ?B"
    unfolding R by (rule bubbleLoops_sorted [OF swo_inOrder n])
  then have srt: "sorted_wrt (inOrder choice flag) ?B" by simp
  have canon: "take (nat itemCount) (sortByID ?R itemCount True) = sort_key ?f ?A
            \<and> take (nat itemCount) (sortByID ?R itemCount True)
              = take (nat itemCount) (sortByID items itemCount True)"
    if d: "distinct (map itemID ?A)"
  proof -
    have nR: "nat itemCount \<le> length ?R" using n len by simp
    have "mset (map itemID ?B) = mset (map itemID ?A)" using ms by simp
    then have dB: "distinct (map itemID ?B)" using d by (metis mset_eq_imp_distinct_iff)
    have "inj_on itemID (set ?A)" using d by (simp add: distinct_map)
    then have inj: "inj_on ?f (set ?A)"
    unfolding inj_on_def by (metis signed_word_eqI)
    have "sort_key ?f ?A = sort_key ?f ?B"
      by (rule sort_key_inj_key_eq [OF _ inj]) (simp_all add: ms)
    then have a: "take (nat itemCount) (sortByID ?R itemCount True) = sort_key ?f ?A"
      using sortByID_canonical [OF nR dB] by simp
    then show ?thesis using sortByID_canonical [OF n d] by simp
  qed
  have strict: "\<forall>a b. \<not> inOrder choice flag a b \<longrightarrow> sortKeyOf choice a \<noteq> sortKeyOf choice b"
    using inOrder_same_key by blast
  show ?thesis using stab srt ms drp len R strict canon by blast
qed

text \<open>
  The theorem at a store of three records, two of them named alike: the sort by name keeps
  these two in their order, and the sort by id afterwards restores the order of the ids.
\<close>

theorem sort_stable_canonical_witness:
  "performSort ByName True [wallet_found, wallet_lost, wallet_lost\<lparr>itemID := 102\<rparr>] 3
     = [wallet_lost, wallet_lost\<lparr>itemID := 102\<rparr>, wallet_found]
   \<and> filter (\<lambda>x. sortKeyOf ByName x = TextKey ''Wallet'')
        (take 3 (performSort ByName True
                   [wallet_found, wallet_lost, wallet_lost\<lparr>itemID := 102\<rparr>] 3))
       = filter (\<lambda>x. sortKeyOf ByName x = TextKey ''Wallet'')
           [wallet_found, wallet_lost, wallet_lost\<lparr>itemID := 102\<rparr>]
   \<and> take 3 (sortByID (performSort ByName True
                         [wallet_found, wallet_lost, wallet_lost\<lparr>itemID := 102\<rparr>] 3) 3 True)
       = [wallet_lost, wallet_found, wallet_lost\<lparr>itemID := 102\<rparr>]"
proof -
  let ?xs = "[wallet_found, wallet_lost, wallet_lost\<lparr>itemID := 102\<rparr>]"
  have h: "nat 3 \<le> length ?xs" by simp
  have d: "distinct (map itemID (take (nat 3) ?xs))"
    by (simp add: wallet_lost_def wallet_found_def)
  have e1: "performSort ByName True ?xs 3
              = [wallet_lost, wallet_lost\<lparr>itemID := 102\<rparr>, wallet_found]"
    by code_simp
  have e2: "sort_key (\<lambda>x. sint (itemID x)) ?xs
              = [wallet_lost, wallet_found, wallet_lost\<lparr>itemID := 102\<rparr>]"
    by code_simp
  note t = sort_stable_canonical [OF h, of ByName True]
  have s: "filter (\<lambda>x. sortKeyOf ByName x = TextKey ''Wallet'')
             (take (nat 3) (performSort ByName True ?xs 3))
           = filter (\<lambda>x. sortKeyOf ByName x = TextKey ''Wallet'') (take (nat 3) ?xs)"
    using t by blast
  have c: "take (nat 3) (sortByID (performSort ByName True ?xs 3) 3 True)
           = sort_key (\<lambda>x. sint (itemID x)) (take (nat 3) ?xs)"
    using t d by blast
  show ?thesis using e1 s c e2 by simp
qed

section \<open>The invariant of the store\<close>

lemma map_itemID_update:
  "itemID y = itemID (xs ! a) \<Longrightarrow> map itemID (xs[a := y]) = map itemID xs"
  by (cases "a < length xs") (simp_all add: map_update list_update_same_conv list_update_beyond)

lemma markAsMatched_ids: "map itemID (markAsMatched xs a b) = map itemID xs"
  by (simp add: markAsMatched_def Let_def map_itemID_update)

lemma markAsMatched_length: "length (markAsMatched xs a b) = length xs"
  by (simp add: markAsMatched_def Let_def)

lemma markItemAsMatched_ids:
  "map itemID (snd (markItemAsMatched xs n id1 id2)) = map itemID xs"
  by (simp add: markItemAsMatched_def markAsMatched_ids split: prod.splits option.splits)

lemma markAsClaimed_ids: "map itemID (snd (markAsClaimed xs n ident)) = map itemID xs"
  by (simp add: markAsClaimed_def Let_def map_itemID_update split: option.splits)

lemma applyEdit_id: "itemID (applyEdit e x) = itemID x"
  by (cases e) simp_all

lemma updateItemMenu_id: "itemID (updateItemMenu x edits) = itemID x"
  unfolding updateItemMenu_def by (induction edits arbitrary: x) (simp_all add: applyEdit_id)

lemma updateItem_ids: "map itemID (snd (updateItem xs n ident edits)) = map itemID xs"
  by (simp add: updateItem_def map_itemID_update updateItemMenu_id split: option.splits)

lemma markMatchByID_ids: "map itemID (snd (markMatchByID xs n p m)) = map itemID xs"
  by (simp add: markMatchByID_def markAsMatched_ids split: option.splits)

lemma askMatchID_ids: "map itemID (askMatchID xs n p cands choices) = map itemID xs"
proof (induction choices)
  case Nil
  then show ?case by simp
next
  case (Cons c cs)
  show ?case
  proof (cases "markMatchByID xs n p c")
    case (Pair ok ys)
    then have "map itemID ys = map itemID xs" using markMatchByID_ids [of xs n p c] by simp
    then show ?thesis using Pair Cons.IH by (simp split: bool.splits)
  qed
qed

lemma searchForMatches_ids: "map itemID (searchForMatches xs n c choices) = map itemID xs"
  by (simp add: searchForMatches_def Let_def askMatchID_ids)

lemma map_take_ids:
  "map itemID ys = map itemID xs \<Longrightarrow> map itemID (take n ys) = map itemID (take n xs)"
  by (metis take_map)

lemma ids_length: "map itemID ys = map itemID xs \<Longrightarrow> length ys = length xs"
  by (metis length_map)

lemma storeInv_len: "storeInv st \<Longrightarrow> nat (st_itemCount st) \<le> length (st_items st)"
  unfolding storeInv_def by linarith

lemma storeInv_items:
  assumes "storeInv st" "map itemID ys = map itemID (st_items st)"
  shows "storeInv (st\<lparr>st_items := ys\<rparr>)"
  using assms map_take_ids [OF assms(2)] ids_length [OF assms(2)]
  by (simp add: storeInv_def)

lemma storeInv_perm:
  assumes inv: "storeInv st" and len: "length ys = length (st_items st)"
    and ms: "mset (take (nat (st_itemCount st)) ys) = mset (take (nat (st_itemCount st)) (st_items st))"
  shows "storeInv (st\<lparr>st_items := ys\<rparr>)"
proof -
  let ?n = "nat (st_itemCount st)"
  have m: "mset (map itemID (take ?n ys)) = mset (map itemID (take ?n (st_items st)))"
    using ms by simp
  have d: "distinct (map itemID (take ?n ys))"
    using inv mset_eq_imp_distinct_iff [OF m] by (simp add: storeInv_def)
  have s: "set (map itemID (take ?n ys)) = set (map itemID (take ?n (st_items st)))"
    using m by (rule mset_eq_setD)
  show ?thesis using inv len d s by (simp add: storeInv_def)
qed

lemma storeInv_sort:
  assumes "storeInv st"
  shows "storeInv (st\<lparr>st_items := performSort choice flag (st_items st) (st_itemCount st)\<rparr>)"
proof -
  have n: "nat (st_itemCount st) \<le> length (st_items st)"
    using assms by (rule storeInv_len)
  have R: "performSort choice flag (st_items st) (st_itemCount st)
             = bubbleLoops (\<lambda>a b. \<not> inOrder choice flag a b) (st_items st) (st_itemCount st)"
    by (rule performSort_bubbleLoops)
  show ?thesis
    unfolding R
    using bubbleLoops_keeps(1,3) [OF n, of "\<lambda>a b. \<not> inOrder choice flag a b" "\<lambda>x. False"]
    by (intro storeInv_perm [OF assms]) simp_all
qed

lemma storeInv_delete:
  assumes inv: "storeInv st"
    and del: "deleteItem (st_items st) (st_itemCount st) ident confirm = (r, ys, m)"
  shows "storeInv (st\<lparr>st_items := ys, st_itemCount := m\<rparr>)"
proof (cases "r = DeletedOK")
  case False
  then have "ys = st_items st" "m = st_itemCount st"
    using del by (auto simp: deleteItem_def split: if_splits option.splits)
  then show ?thesis using inv by simp
next
  case True
  let ?xs = "st_items st"
  let ?n = "st_itemCount st"
  obtain k where k: "find (\<lambda>i. itemID (?xs ! i) = ident) [0..<nat ?n] = Some k"
      and ys: "ys = shiftDown ?xs k ?n" and m: "m = ?n - 1"
    using del True by (auto simp: deleteItem_def split: if_splits option.splits)
  have kn: "int k < ?n" using k getItemByID_Some [of ?xs ?n ident k] by (simp add: getItemByID_def)
  have len: "nat ?n \<le> length ?xs" using inv by (rule storeInv_len)
  have tk: "take (nat (?n - 1)) ys = take k ?xs @ drop (Suc k) (take (nat ?n) ?xs)"
    unfolding ys by (rule shiftDown_take [OF kn len])
  have kn': "k < nat ?n" using kn by linarith
  have split: "take (nat ?n) ?xs = take k ?xs @ ?xs ! k # drop (Suc k) (take (nat ?n) ?xs)"
  proof -
    have a: "take k (take (nat ?n) ?xs) = take k ?xs" using kn' by (simp add: min_def)
    have c: "take (nat ?n) ?xs ! k = ?xs ! k" using kn' by simp
    have "k < length (take (nat ?n) ?xs)" using kn' len by simp
    then have "take (nat ?n) ?xs
        = take k (take (nat ?n) ?xs) @ take (nat ?n) ?xs ! k # drop (Suc k) (take (nat ?n) ?xs)"
      by (rule id_take_nth_drop)
    then show ?thesis unfolding a c .
  qed
  have d0: "distinct (map itemID (take (nat ?n) ?xs))" using inv by (simp add: storeInv_def)
  have b0: "\<forall>v \<in> set (map itemID (take (nat ?n) ?xs)). sint v < sint (st_nextID st)"
    using inv by (simp add: storeInv_def)
  have d: "distinct (map itemID (take (nat (?n - 1)) ys))"
    using d0 unfolding tk by (subst (asm) split) simp
  have b: "\<forall>v \<in> set (map itemID (take (nat (?n - 1)) ys)). sint v < sint (st_nextID st)"
    using b0 unfolding tk by (subst (asm) split) simp
  have ly: "length ys = length ?xs" unfolding ys by (rule shiftDown_length)
  show ?thesis using inv d b ly kn by (simp add: storeInv_def m)
qed

lemma sint_succ:
  fixes w :: int32
  assumes "w \<noteq> 2147483647"
  shows "sint (w + 1) = sint w + 1"
proof -
  have m: "sint (2147483647 :: int32) = 2147483647" by simp
  have "sint w \<noteq> 2147483647" using assms m by (metis signed_word_eqI)
  moreover have "sint w < 2147483648" using sint_lt [of w] by simp
  moreover have "- 2147483648 \<le> sint w" using sint_ge [of w] by simp
  ultimately have "- (2 ^ 31) \<le> sint w + 1" "sint w + 1 < 2 ^ 31" by simp_all
  then have "signed_take_bit 31 (sint w + 1) = sint w + 1"
    by (rule signed_take_bit_int_eq_self)
  then show ?thesis by (simp add: sint_word_ariths)
qed

lemma resizeArray_result:
  assumes "resizeArray xs cap = Inr (ys, cap')" "length xs = nat cap" "0 < cap"
  shows "cap' = cap * 2" "length ys = nat cap'" "take (nat cap) ys = xs"
proof -
  have ys: "ys = map (\<lambda>i. xs ! i) [0..<nat cap] @ replicate (nat (cap * 2) - nat cap) zeroItem"
    and c: "cap' = cap * 2"
    using assms(1) by (auto simp: resizeArray_def Let_def split: if_splits)
  have same: "map (\<lambda>i. xs ! i) [0..<nat cap] = xs"
    using assms(2) by (metis map_nth)
  show "cap' = cap * 2" by (rule c)
  show "length ys = nat cap'" using assms(3) by (simp add: ys c)
  show "take (nat cap) ys = xs" unfolding ys same using assms(2) by simp
qed

lemma addItemWith_inv:
  assumes inv: "storeInv st"
    and add: "addItemWith statusText st e searchChoice choices = Inr st'"
  shows "storeInv st' \<and> sint (st_nextID st') = sint (st_nextID st) + 1
         \<and> st_itemCount st' = st_itemCount st + 1"
proof -
  let ?n = "st_itemCount st"
  let ?xs = "st_items st"
  let ?new = "\<lparr>itemID = st_nextID st, name = e_name e, category = e_category e,
                   description = e_description e, date = storeDate (e_date e),
                   location = e_location e, status = statusText, matched = 0, claimed = 0,
                   matchedItemID = - 1, personName = e_personName e,
                   personContact = e_personContact e\<rparr>"
  have n0: "0 \<le> ?n" and ncap: "?n \<le> st_capacity st" and cap0: "0 < st_capacity st"
    and lx: "length ?xs = nat (st_capacity st)"
    and d0: "distinct (map itemID (take (nat ?n) ?xs))"
    and b0: "\<forall>v \<in> set (map itemID (take (nat ?n) ?xs)). sint v < sint (st_nextID st)"
    and lo: "100 \<le> sint (st_nextID st)"
    using inv by (simp_all add: storeInv_def)
  obtain items1 capacity1 where
    rs: "(if ?n = st_capacity st then resizeArray ?xs (st_capacity st)
          else Inr (?xs, st_capacity st)) = Inr (items1, capacity1)"
    using add by (auto simp: addItemWith_def split: sum.splits)
  have room: "?n < capacity1 \<and> length items1 = nat capacity1
              \<and> take (nat ?n) items1 = take (nat ?n) ?xs"
  proof (cases "?n = st_capacity st")
    case True
    then have "resizeArray ?xs (st_capacity st) = Inr (items1, capacity1)" using rs by simp
    from resizeArray_result [OF this lx cap0] True cap0 lx
    show ?thesis by simp
  next
    case False
    then show ?thesis using rs ncap lx by simp
  qed
  have nomax: "st_nextID st \<noteq> 2147483647"
    using add rs by (auto simp: addItemWith_def split: if_splits)
  let ?items2 = "items1[nat ?n := ?new]"
  let ?items3 = "searchForMatches ?items2 (?n + 1) searchChoice choices"
  have st': "st' = \<lparr>st_items = ?items3, st_itemCount = ?n + 1, st_capacity = capacity1,
                     st_nextID = st_nextID st + 1\<rparr>"
    using add rs nomax by (simp add: addItemWith_def Let_def)
  have nl: "nat ?n < length items1" using room n0 by linarith
  have t2: "take (nat (?n + 1)) ?items2 = take (nat ?n) ?xs @ [?new]"
  proof -
    have "nat (?n + 1) = Suc (nat ?n)" using n0 by linarith
    then have "take (nat (?n + 1)) ?items2 = take (nat ?n) ?items2 @ [?items2 ! nat ?n]"
      using nl by (simp add: take_Suc_conv_app_nth)
    then show ?thesis using nl room by simp
  qed
  have ids3: "map itemID (take (nat (?n + 1)) ?items3)
                = map itemID (take (nat ?n) ?xs) @ [st_nextID st]"
    using map_take_ids [OF searchForMatches_ids, of "nat (?n + 1)" ?items2 "?n + 1" searchChoice choices]
    by (simp add: t2)
  have l3: "length ?items3 = nat capacity1"
    using ids_length [OF searchForMatches_ids, of ?items2 "?n + 1" searchChoice choices] room
    by simp
  have s1: "sint (st_nextID st + 1) = sint (st_nextID st) + 1" using nomax by (rule sint_succ)
  have fresh: "st_nextID st \<notin> set (map itemID (take (nat ?n) ?xs))"
    using b0 by blast
  have c5: "distinct (map itemID (take (nat (?n + 1)) ?items3))"
    unfolding ids3 using d0 fresh by simp
  have c6: "\<forall>v \<in> set (map itemID (take (nat (?n + 1)) ?items3)).
              sint v < sint (st_nextID st + 1)"
    unfolding ids3 s1 using b0 by auto
  have c7: "100 \<le> sint (st_nextID st + 1)" unfolding s1 using lo by simp
  have c3: "0 < capacity1" using room n0 by linarith
  have "storeInv st'"
    unfolding st' storeInv_def using n0 room l3 c3 c5 c6 c7 by simp
  then show ?thesis by (simp add: st' s1)
qed

lemma clearAllItems_inv:
  assumes "storeInv st"
  shows "storeInv (clearAllItems st confirm opens)"
  using assms by (simp add: clearAllItems_def storeInv_def)

lemma execute_inv:
  assumes inv: "storeInv st" and ex: "execute c st = Inr st'"
  shows "storeInv st' \<and> (\<not> isClearAll c \<longrightarrow> sint (st_nextID st) \<le> sint (st_nextID st'))"
proof (cases c)
  case (ReportLost e sc ch)
  then have "addItemWith ''Lost'' st e sc ch = Inr st'" using ex by (simp add: addLostItem_def)
  from addItemWith_inv [OF inv this] show ?thesis by simp
next
  case (ReportFound e sc ch)
  then have "addItemWith ''Found'' st e sc ch = Inr st'" using ex by (simp add: addFoundItem_def)
  from addItemWith_inv [OF inv this] show ?thesis by simp
next
  case (UpdateItem ident edits)
  then have "st' = st\<lparr>st_items := snd (updateItem (st_items st) (st_itemCount st) ident edits)\<rparr>"
    using ex by simp
  then show ?thesis using storeInv_items [OF inv updateItem_ids] UpdateItem by simp
next
  case (DeleteItem ident confirm)
  obtain r ys m where d: "deleteItem (st_items st) (st_itemCount st) ident confirm = (r, ys, m)"
    by (metis prod_cases3)
  then have "st' = st\<lparr>st_items := ys, st_itemCount := m\<rparr>" using ex DeleteItem by simp
  then show ?thesis using storeInv_delete [OF inv d] DeleteItem by simp
next
  case (MarkClaimed ident)
  then have "st' = st\<lparr>st_items := snd (markAsClaimed (st_items st) (st_itemCount st) ident)\<rparr>"
    using ex by simp
  then show ?thesis using storeInv_items [OF inv markAsClaimed_ids] MarkClaimed by simp
next
  case (MarkMatched id1 id2)
  then have "st' = st\<lparr>st_items := snd (markItemAsMatched (st_items st) (st_itemCount st) id1 id2)\<rparr>"
    using ex by simp
  then show ?thesis using storeInv_items [OF inv markItemAsMatched_ids] MarkMatched by simp
next
  case (SortItems choice flag)
  then have "st' = st\<lparr>st_items := performSort choice flag (st_items st) (st_itemCount st)\<rparr>"
    using ex by simp
  then show ?thesis using storeInv_sort [OF inv] SortItems by simp
next
  case (ClearAll confirm opens)
  then have "st' = clearAllItems st confirm opens" using ex by simp
  then show ?thesis using clearAllItems_inv [OF inv] ClearAll by simp
qed

lemma run_inv:
  "storeInv st \<Longrightarrow> run cmds st = Inr st' \<Longrightarrow>
   storeInv st' \<and> ((\<forall>c \<in> set cmds. \<not> isClearAll c) \<longrightarrow> sint (st_nextID st) \<le> sint (st_nextID st'))"
proof (induction cmds arbitrary: st)
  case Nil
  then show ?case by simp
next
  case (Cons c cs)
  then obtain s1 where s1: "execute c st = Inr s1" "run cs s1 = Inr st'"
    by (auto split: sum.splits)
  have a: "storeInv s1 \<and> (\<not> isClearAll c \<longrightarrow> sint (st_nextID st) \<le> sint (st_nextID s1))"
    using execute_inv [OF Cons.prems(1) s1(1)] .
  then have b: "storeInv st' \<and> ((\<forall>c \<in> set cs. \<not> isClearAll c)
                  \<longrightarrow> sint (st_nextID s1) \<le> sint (st_nextID st'))"
    using Cons.IH [OF _ s1(2)] by blast
  show ?case using a b by auto
qed

lemma addItemWith_fault:
  "(\<exists>f. addItemWith statusText st e searchChoice choices = Inl f) \<longleftrightarrow>
     (st_itemCount st = st_capacity st
        \<and> (2147483647 < st_capacity st * 2 \<or> st_capacity st * 2 < - 2147483648))
     \<or> st_nextID st = 2147483647"
  by (auto simp: addItemWith_def resizeArray_def Let_def split: sum.splits if_splits)

text \<open>Only an add can end in a fault, and only at the end of the \<^verbatim>\<open>int\<close> range.\<close>

lemma execute_fault:
  assumes "storeInv st"
  shows "(\<exists>f. execute c st = Inl f) \<longleftrightarrow>
     isAdd c \<and> ((st_itemCount st = st_capacity st \<and> 2147483647 < st_capacity st * 2)
                \<or> st_nextID st = 2147483647)"
proof -
  have pos: "\<not> st_capacity st * 2 < - 2147483648" using assms by (simp add: storeInv_def)
  show ?thesis
  proof (cases c)
    case (ReportLost e sc ch)
    then show ?thesis using addItemWith_fault [of "''Lost''" st e sc ch] pos
      by (simp add: addLostItem_def)
  next
    case (ReportFound e sc ch)
    then show ?thesis using addItemWith_fault [of "''Found''" st e sc ch] pos
      by (simp add: addFoundItem_def)
  next
    case (DeleteItem ident confirm)
    then show ?thesis by (simp split: prod.splits)
  qed simp_all
qed

lemma initialStore_inv: "storeInv (initialStore junk)"
  by (simp add: storeInv_def initialStore_def)

text \<open>
  What one choice does to the counter and to the record count: only an add raises them,
  by one.
\<close>

lemma deleteItem_count:
  assumes "0 \<le> itemCount" "deleteItem items itemCount ident confirm = (r, ys, m)"
  shows "m \<le> itemCount"
  using assms by (auto simp: deleteItem_def split: if_splits option.splits)

lemma execute_counter:
  assumes inv: "storeInv st" and ex: "execute c st = Inr s1"
  shows "sint (st_nextID s1) \<le> sint (st_nextID st) + (if isAdd c then 1 else 0)
       \<and> st_itemCount s1 \<le> st_itemCount st + (if isAdd c then 1 else 0)"
proof (cases c)
  case (ReportLost e sc ch)
  then have "addItemWith ''Lost'' st e sc ch = Inr s1" using ex by (simp add: addLostItem_def)
  from addItemWith_inv [OF inv this] show ?thesis using ReportLost by simp
next
  case (ReportFound e sc ch)
  then have "addItemWith ''Found'' st e sc ch = Inr s1" using ex by (simp add: addFoundItem_def)
  from addItemWith_inv [OF inv this] show ?thesis using ReportFound by simp
next
  case (UpdateItem ident edits)
  then show ?thesis using ex by auto
next
  case (DeleteItem ident confirm)
  obtain r ys m where d: "deleteItem (st_items st) (st_itemCount st) ident confirm = (r, ys, m)"
    by (metis prod_cases3)
  have n0: "0 \<le> st_itemCount st" using inv by (simp add: storeInv_def)
  have "s1 = st\<lparr>st_items := ys, st_itemCount := m\<rparr>" using ex DeleteItem d by simp
  then show ?thesis using deleteItem_count [OF n0 d] DeleteItem by simp
next
  case (MarkClaimed ident)
  then show ?thesis using ex by auto
next
  case (MarkMatched id1 id2)
  then show ?thesis using ex by auto
next
  case (SortItems choice flag)
  then show ?thesis using ex by auto
next
  case (ClearAll confirm opens)
  have "0 \<le> st_itemCount st" "100 \<le> sint (st_nextID st)" using inv by (simp_all add: storeInv_def)
  then show ?thesis using ex ClearAll by (auto simp: clearAllItems_def split: if_splits)
qed

text \<open>
  A choice returns when it is not an add, or when the counter and the record count have
  room; so does a run whose adds all have room.
\<close>

lemma execute_returns:
  assumes inv: "storeInv st"
    and room: "isAdd c \<longrightarrow> sint (st_nextID st) < 2147483647 \<and> st_itemCount st < 1073741824"
  shows "\<exists>s1. execute c st = Inr s1"
proof -
  have "\<not> (\<exists>f. execute c st = Inl f)"
  proof
    assume "\<exists>f. execute c st = Inl f"
    then have a: "isAdd c"
      and b: "(st_itemCount st = st_capacity st \<and> 2147483647 < st_capacity st * 2)
                \<or> st_nextID st = 2147483647"
      using execute_fault [OF inv, of c] by blast+
    from a room have r: "sint (st_nextID st) < 2147483647" "st_itemCount st < 1073741824"
      by blast+
    from b show False
    proof
      assume "st_itemCount st = st_capacity st \<and> 2147483647 < st_capacity st * 2"
      then show False using r(2) by linarith
    next
      assume "st_nextID st = 2147483647"
      then have "sint (st_nextID st) = 2147483647" by simp
      then show False using r(1) by simp
    qed
  qed
  then show ?thesis by (cases "execute c st") auto
qed

lemma run_returns:
  "storeInv st \<Longrightarrow>
   sint (st_nextID st) + int (length (filter isAdd cmds)) \<le> 2147483647 \<Longrightarrow>
   st_itemCount st + int (length (filter isAdd cmds)) \<le> 1073741824 \<Longrightarrow>
   \<exists>st'. run cmds st = Inr st'"
proof (induction cmds arbitrary: st)
  case Nil
  then show ?case by simp
next
  case (Cons c cs)
  have room: "isAdd c \<longrightarrow> sint (st_nextID st) < 2147483647 \<and> st_itemCount st < 1073741824"
    using Cons.prems(2,3) by auto
  from execute_returns [OF Cons.prems(1) room] obtain s1 where s1: "execute c st = Inr s1"
    by blast
  have i1: "storeInv s1" using execute_inv [OF Cons.prems(1) s1] by blast
  note k = execute_counter [OF Cons.prems(1) s1]
  have b1: "sint (st_nextID s1) + int (length (filter isAdd cs)) \<le> 2147483647"
    using k Cons.prems(2) by (auto split: if_splits)
  have b2: "st_itemCount s1 + int (length (filter isAdd cs)) \<le> 1073741824"
    using k Cons.prems(3) by (auto split: if_splits)
  from Cons.IH [OF i1 b1 b2] obtain st' where "run cs s1 = Inr st'" by blast
  then show ?case using s1 by simp
qed

text \<open>
  Without that room the add does not return a store: at the counter 2147483647 the
  source's \<^verbatim>\<open>nextID++\<close> overflows \<^verbatim>\<open>int\<close>.
\<close>

lemma add_at_INT_MAX:
  "storeInv \<lparr>st_items = replicate 10 zeroItem, st_itemCount = 0, st_capacity = 10,
              st_nextID = 2147483647\<rparr>
   \<and> run [ReportLost lost_entry (CHR ''n'') []]
         \<lparr>st_items = replicate 10 zeroItem, st_itemCount = 0, st_capacity = 10,
           st_nextID = 2147483647\<rparr> = Inl SignedOverflow"
proof -
  have a: "storeInv \<lparr>st_items = replicate 10 zeroItem, st_itemCount = 0, st_capacity = 10,
              st_nextID = 2147483647\<rparr>"
    by (simp add: storeInv_def)
  have b: "run [ReportLost lost_entry (CHR ''n'') []]
         \<lparr>st_items = replicate 10 zeroItem, st_itemCount = 0, st_capacity = 10,
           st_nextID = 2147483647\<rparr> = Inl SignedOverflow"
    by (simp add: addLostItem_def addItemWith_def)
  show ?thesis using a b by blast
qed

section \<open>The counter and the ids along a run\<close>

text \<open>
  Claim C8, as amended. Start from a store that satisfies the invariant (such as the
  variables of \<^verbatim>\<open>main\<close> at a first start, whose counter is 100, also after the load of
  a missing file) and take any sequence of add, update, delete, match, claim, sort and
  clear-all choices whose adds have room in the \<^verbatim>\<open>int\<close> range: the counter plus the
  number of adds is at most 2147483647, and the record count plus the number of adds is
  at most \<open>2 ^ 30\<close> (so that a full array can be doubled). Then the run returns a store.
  In it the ids of the live records are pairwise different and below the counter, and the
  counter is at least 100. When no clear-all is among the choices, the counter is not
  smaller than at the start. A clear-all run next, confirmed and with the file opening,
  sets the record count to 0 and the counter to 100, and otherwise leaves both. The next
  choice returns, except an add at the end of the \<^verbatim>\<open>int\<close> range (the counter at its
  greatest value, or a full array whose capacity cannot be doubled). Writing the store
  with \<^verbatim>\<open>saveToFile\<close> and loading that file at a fresh start gives back the same
  counter and the same live records (for records that the format can hold and a count
  that the capacity reaches by doubling from 10 inside the \<^verbatim>\<open>int\<close> range), so the
  invariant holds again.
\<close>

theorem counter_and_ids:
  assumes inv: "storeInv st"
    and idRoom: "sint (st_nextID st) + int (length (filter isAdd cmds)) \<le> 2147483647"
    and capRoom: "st_itemCount st + int (length (filter isAdd cmds)) \<le> 1073741824"
  shows "\<exists>st'. run cmds st = Inr st'
       \<and> distinct (map itemID (take (nat (st_itemCount st')) (st_items st')))
       \<and> (\<forall>v \<in> set (map itemID (take (nat (st_itemCount st')) (st_items st'))).
             sint v < sint (st_nextID st'))
       \<and> storeInv st'
       \<and> 100 \<le> sint (st_nextID st')
       \<and> ((\<forall>c \<in> set cmds. \<not> isClearAll c) \<longrightarrow> sint (st_nextID st) \<le> sint (st_nextID st'))
       \<and> (\<forall>confirm opens.
             st_nextID (clearAllItems st' confirm opens)
               = (if (confirm = CHR ''Y'' \<or> confirm = CHR ''y'') \<and> opens
                  then 100 else st_nextID st')
             \<and> st_itemCount (clearAllItems st' confirm opens)
               = (if (confirm = CHR ''Y'' \<or> confirm = CHR ''y'') \<and> opens
                  then 0 else st_itemCount st')
             \<and> execute (ClearAll confirm opens) st' = Inr (clearAllItems st' confirm opens))
       \<and> (\<forall>c. (\<exists>f. execute c st' = Inl f) \<longleftrightarrow>
              isAdd c \<and> ((st_itemCount st' = st_capacity st' \<and> 2147483647 < st_capacity st' * 2)
                         \<or> st_nextID st' = 2147483647))
       \<and> storeInv (initialStore junk) \<and> st_nextID (initialStore junk) = 100
       \<and> loadFromFile None junk (initialStore junk) = Some (Inr (initialStore junk))
       \<and> ((\<forall>i. int i < st_itemCount st' \<longrightarrow> storable (st_items st' ! i))
            \<and> st_itemCount st' \<le> 10 * 2 ^ k \<and> (10::int) * 2 ^ k \<le> 2147483647
          \<longrightarrow> (\<exists>st2. loadFromFile
                         (saveToFile True old (st_items st') (st_itemCount st') (st_nextID st'))
                         junk (initialStore junk) = Some (Inr st2)
                     \<and> st_nextID st2 = st_nextID st'
                     \<and> st_itemCount st2 = st_itemCount st'
                     \<and> take (nat (st_itemCount st')) (st_items st2)
                         = take (nat (st_itemCount st')) (st_items st')
                     \<and> storeInv st2))"
proof -
  from run_returns [OF inv idRoom capRoom] obtain st' where r: "run cmds st = Inr st'"
    by blast
  have a: "storeInv st'"
    and m: "(\<forall>c \<in> set cmds. \<not> isClearAll c) \<longrightarrow> sint (st_nextID st) \<le> sint (st_nextID st')"
    using run_inv [OF inv r] by blast+
  have d: "distinct (map itemID (take (nat (st_itemCount st')) (st_items st')))"
    and bl: "\<forall>v \<in> set (map itemID (take (nat (st_itemCount st')) (st_items st'))).
             sint v < sint (st_nextID st')"
    and lo: "100 \<le> sint (st_nextID st')"
    using a by (simp_all add: storeInv_def)
  have c: "\<forall>confirm opens.
             st_nextID (clearAllItems st' confirm opens)
               = (if (confirm = CHR ''Y'' \<or> confirm = CHR ''y'') \<and> opens
                  then 100 else st_nextID st')
             \<and> st_itemCount (clearAllItems st' confirm opens)
               = (if (confirm = CHR ''Y'' \<or> confirm = CHR ''y'') \<and> opens
                  then 0 else st_itemCount st')
             \<and> execute (ClearAll confirm opens) st' = Inr (clearAllItems st' confirm opens)"
    by (simp add: clearAllItems_def)
  have i: "storeInv (initialStore junk)" by (rule initialStore_inv)
  have i1: "st_nextID (initialStore junk) = 100" by (simp add: initialStore_def)
  have l: "loadFromFile None junk (initialStore junk) = Some (Inr (initialStore junk))"
    by (simp add: loadFromFile_def initialStore_def)
  have sl: "\<exists>st2. loadFromFile
                 (saveToFile True old (st_items st') (st_itemCount st') (st_nextID st'))
                 junk (initialStore junk) = Some (Inr st2)
             \<and> st_nextID st2 = st_nextID st'
             \<and> st_itemCount st2 = st_itemCount st'
             \<and> take (nat (st_itemCount st')) (st_items st2)
                 = take (nat (st_itemCount st')) (st_items st')
             \<and> storeInv st2"
    if ok: "\<forall>i. int i < st_itemCount st' \<longrightarrow> storable (st_items st' ! i)"
      and room: "st_itemCount st' \<le> 10 * 2 ^ k" "(10::int) * 2 ^ k \<le> 2147483647"
  proof -
    let ?t = "initialStore junk"
    have h1: "0 \<le> st_itemCount st'" using a by (simp add: storeInv_def)
    have h2: "nat (st_itemCount st') \<le> length (st_items st')" using a by (rule storeInv_len)
    have h4: "length (st_items ?t) = nat (st_capacity ?t)" by (simp add: initialStore_def)
    have h5: "0 < st_capacity ?t" by (simp add: initialStore_def)
    have h6: "st_itemCount st' \<le> st_capacity ?t * 2 ^ k" using room by (simp add: initialStore_def)
    have h7: "st_capacity ?t * 2 ^ k \<le> 2147483647" using room by (simp add: initialStore_def)
    from save_load_general [OF h1 h2 ok h4 h5 h6 h7, of old "st_nextID st'" junk]
    obtain st2 where s2:
      "loadFromFile (saveToFile True old (st_items st') (st_itemCount st') (st_nextID st'))
         junk ?t = Some (Inr st2)"
      "st_itemCount st2 = st_itemCount st'" "st_nextID st2 = st_nextID st'"
      "take (nat (st_itemCount st')) (st_items st2) = take (nat (st_itemCount st')) (st_items st')"
      "st_itemCount st' \<le> st_capacity st2" "length (st_items st2) = nat (st_capacity st2)"
      "st_capacity ?t \<le> st_capacity st2"
      by blast
    have "0 < st_capacity st2" using s2(7) by (simp add: initialStore_def)
    then have "storeInv st2"
      using a s2 unfolding storeInv_def by simp
    then show ?thesis using s2 by blast
  qed
  have pr: "\<forall>c. (\<exists>f. execute c st' = Inl f) \<longleftrightarrow>
              isAdd c \<and> ((st_itemCount st' = st_capacity st' \<and> 2147483647 < st_capacity st' * 2)
                         \<or> st_nextID st' = 2147483647)"
    using execute_fault [OF a] by blast
  have sl': "(\<forall>i. int i < st_itemCount st' \<longrightarrow> storable (st_items st' ! i))
            \<and> st_itemCount st' \<le> 10 * 2 ^ k \<and> (10::int) * 2 ^ k \<le> 2147483647
          \<longrightarrow> (\<exists>st2. loadFromFile
                         (saveToFile True old (st_items st') (st_itemCount st') (st_nextID st'))
                         junk (initialStore junk) = Some (Inr st2)
                     \<and> st_nextID st2 = st_nextID st'
                     \<and> st_itemCount st2 = st_itemCount st'
                     \<and> take (nat (st_itemCount st')) (st_items st2)
                         = take (nat (st_itemCount st')) (st_items st')
                     \<and> storeInv st2)"
    using sl by blast
  show ?thesis
    by (rule exI [of _ st']) (intro conjI r d bl a lo m c pr i i1 l sl')
qed

text \<open>
  Claim C8 as stated fails at clear-all: after one add the counter is 101, and the
  clear-all that follows sets it to 100.
\<close>

theorem counter_and_ids_counterexample:
  "storeInv (initialStore zeroItem)
   \<and> run [ReportLost lost_entry (CHR ''n'') []] (initialStore zeroItem)
       = Inr \<lparr>st_items = wallet_lost # replicate 9 zeroItem, st_itemCount = 1,
               st_capacity = 10, st_nextID = 101\<rparr>
   \<and> run [ClearAll (CHR ''Y'') True]
         \<lparr>st_items = wallet_lost # replicate 9 zeroItem, st_itemCount = 1,
           st_capacity = 10, st_nextID = 101\<rparr>
       = Inr \<lparr>st_items = wallet_lost # replicate 9 zeroItem, st_itemCount = 0,
               st_capacity = 10, st_nextID = 100\<rparr>
   \<and> sint (100 :: int32) < sint (101 :: int32)"
proof -
  have a: "storeInv (initialStore zeroItem)" by (rule initialStore_inv)
  have b: "run [ReportLost lost_entry (CHR ''n'') []] (initialStore zeroItem)
       = Inr \<lparr>st_items = wallet_lost # replicate 9 zeroItem, st_itemCount = 1,
               st_capacity = 10, st_nextID = 101\<rparr>"
    by code_simp
  have c: "run [ClearAll (CHR ''Y'') True]
         \<lparr>st_items = wallet_lost # replicate 9 zeroItem, st_itemCount = 1,
           st_capacity = 10, st_nextID = 101\<rparr>
       = Inr \<lparr>st_items = wallet_lost # replicate 9 zeroItem, st_itemCount = 0,
               st_capacity = 10, st_nextID = 100\<rparr>"
    by code_simp
  have d: "sint (100 :: int32) < sint (101 :: int32)" by simp
  show ?thesis using a b c d by blast
qed

text \<open>
  The theorem along the example scenario: two reports, the second matched with the first,
  and the claim of the pair. The two adds have room, the run returns the store shown, its
  two ids differ and are below the counter 102, which is not smaller than the 100 of the
  start, and a confirmed clear-all after it leaves no record and the counter 100.
\<close>

theorem counter_and_ids_witness:
  "storeInv (initialStore zeroItem)
   \<and> sint (st_nextID (initialStore zeroItem)) + 2 \<le> 2147483647
   \<and> st_itemCount (initialStore zeroItem) + 2 \<le> 1073741824
   \<and> run [ReportLost lost_entry (CHR ''n'') [], ReportFound found_entry (CHR ''y'') [100],
           MarkClaimed 100] (initialStore zeroItem)
       = Inr \<lparr>st_items = [wallet_lost\<lparr>matched := 1, matchedItemID := 101, claimed := 1\<rparr>,
                           wallet_found\<lparr>matched := 1, matchedItemID := 100, claimed := 1\<rparr>]
                          @ replicate 8 zeroItem,
               st_itemCount = 2, st_capacity = 10, st_nextID = 102\<rparr>
   \<and> distinct (map itemID (take 2
        ([wallet_lost\<lparr>matched := 1, matchedItemID := 101, claimed := 1\<rparr>,
          wallet_found\<lparr>matched := 1, matchedItemID := 100, claimed := 1\<rparr>]
         @ replicate 8 zeroItem)))
   \<and> sint (100 :: int32) \<le> sint (102 :: int32)
   \<and> st_itemCount (clearAllItems
        \<lparr>st_items = [wallet_lost\<lparr>matched := 1, matchedItemID := 101, claimed := 1\<rparr>,
                           wallet_found\<lparr>matched := 1, matchedItemID := 100, claimed := 1\<rparr>]
                          @ replicate 8 zeroItem,
               st_itemCount = 2, st_capacity = 10, st_nextID = 102\<rparr> (CHR ''Y'') True) = 0
   \<and> st_nextID (clearAllItems
        \<lparr>st_items = [wallet_lost\<lparr>matched := 1, matchedItemID := 101, claimed := 1\<rparr>,
                           wallet_found\<lparr>matched := 1, matchedItemID := 100, claimed := 1\<rparr>]
                          @ replicate 8 zeroItem,
               st_itemCount = 2, st_capacity = 10, st_nextID = 102\<rparr> (CHR ''Y'') True) = 100"
proof -
  let ?cmds = "[ReportLost lost_entry (CHR ''n'') [], ReportFound found_entry (CHR ''y'') [100],
                MarkClaimed 100]"
  let ?fin = "\<lparr>st_items = [wallet_lost\<lparr>matched := 1, matchedItemID := 101, claimed := 1\<rparr>,
                           wallet_found\<lparr>matched := 1, matchedItemID := 100, claimed := 1\<rparr>]
                          @ replicate 8 zeroItem,
               st_itemCount = 2, st_capacity = 10, st_nextID = 102\<rparr>"
  have a: "storeInv (initialStore zeroItem)" by (rule initialStore_inv)
  have n: "int (length (filter isAdd ?cmds)) = 2" by simp
  have h2: "sint (st_nextID (initialStore zeroItem)) + 2 \<le> 2147483647"
    by (simp add: initialStore_def)
  have h3: "st_itemCount (initialStore zeroItem) + 2 \<le> 1073741824"
    by (simp add: initialStore_def)
  have b: "run ?cmds (initialStore zeroItem) = Inr ?fin" by code_simp
  have nc: "\<forall>c \<in> set ?cmds. \<not> isClearAll c" by simp
  from counter_and_ids [where st = "initialStore zeroItem" and cmds = ?cmds
      and junk = zeroItem and k = 0 and old = None, OF a h2 [folded n] h3 [folded n]]
  obtain s where s: "run ?cmds (initialStore zeroItem) = Inr s"
    and d: "distinct (map itemID (take (nat (st_itemCount s)) (st_items s)))"
    and m: "(\<forall>c \<in> set ?cmds. \<not> isClearAll c)
              \<longrightarrow> sint (st_nextID (initialStore zeroItem)) \<le> sint (st_nextID s)"
    and c: "\<forall>confirm opens.
             st_nextID (clearAllItems s confirm opens)
               = (if (confirm = CHR ''Y'' \<or> confirm = CHR ''y'') \<and> opens
                  then 100 else st_nextID s)
             \<and> st_itemCount (clearAllItems s confirm opens)
               = (if (confirm = CHR ''Y'' \<or> confirm = CHR ''y'') \<and> opens
                  then 0 else st_itemCount s)
             \<and> execute (ClearAll confirm opens) s = Inr (clearAllItems s confirm opens)"
    by blast
  have e: "s = ?fin" using s b by simp
  have d': "distinct (map itemID (take 2
        ([wallet_lost\<lparr>matched := 1, matchedItemID := 101, claimed := 1\<rparr>,
          wallet_found\<lparr>matched := 1, matchedItemID := 100, claimed := 1\<rparr>]
         @ replicate 8 zeroItem)))"
    using d unfolding e by simp
  have m': "sint (100 :: int32) \<le> sint (102 :: int32)"
    using m nc unfolding e by (simp add: initialStore_def)
  have c1: "st_itemCount (clearAllItems ?fin (CHR ''Y'') True) = 0"
    and c2: "st_nextID (clearAllItems ?fin (CHR ''Y'') True) = 100"
    using c unfolding e by simp_all
  show ?thesis using a h2 h3 b d' m' c1 c2 by blast
qed

end
